theory Spec2Isabelle
  imports Complex_Main "HOL-Library.Word"
begin

unbundle bit_operations_syntax

section \<open>Data model\<close>

text \<open>
  The game module of oshu (\<^verbatim>\<open>src/game/game.c\<close>, \<^verbatim>\<open>src/game/screens/play.c\<close>) is
  embedded as pure functions over an explicit game record.

  \<^item> C \<^verbatim>\<open>double\<close> values (times, offsets) are real numbers: finite, with exact
    arithmetic. Rounding, infinities and NaN are outside the model.
  \<^item> The doubly-linked hit list \<^verbatim>\<open>beatmap.hits\<close> is an arena: the list of its nodes
    in link order, head sentinel first, tail sentinel last. A pointer to a node is
    its index; \<^verbatim>\<open>hit->previous\<close> is the index below, \<^verbatim>\<open>hit->next\<close> the index above,
    and the \<^verbatim>\<open>NULL\<close> before the head and after the tail is \<open>None\<close>.
  \<^item> Dereferencing \<^verbatim>\<open>NULL\<close> (walking off either end of the list) and a failed
    \<^verbatim>\<open>assert\<close> are the result \<open>None\<close> of the operation.
\<close>

subsection \<open>Hit objects\<close>

datatype oshu_hit_state =
  OSHU_INITIAL_HIT | OSHU_SLIDING_HIT | OSHU_GOOD_HIT | OSHU_MISSED_HIT | OSHU_SKIPPED_HIT

datatype oshu_hit_type = OSHU_CIRCLE_HIT | OSHU_SLIDER_HIT | OSHU_OTHER_HIT

text \<open>
  \<^verbatim>\<open>struct oshu_hit\<close>, restricted to the fields the game module reads or writes. The
  field \<^verbatim>\<open>state\<close> of a hit is called \<open>hstate\<close> here, because the game has a field
  \<^verbatim>\<open>state\<close> of its own; \<^verbatim>\<open>slider.duration\<close> is \<open>slider_duration\<close>.
\<close>

record oshu_hit =
  time :: real
  htype :: oshu_hit_type
  slider_duration :: real
  hstate :: oshu_hit_state

text \<open>
  Modelled from the spec: \<^verbatim>\<open>oshu_hit_end_time\<close> is declared in the beatmap module,
  which is not part of the sources at hand. The specification gives it as
  ``\<^verbatim>\<open>time\<close> plus duration for extended objects, else equal to \<^verbatim>\<open>time\<close>''.
\<close>

definition oshu_hit_end_time :: "oshu_hit \<Rightarrow> real" where
  "oshu_hit_end_time hit =
     (if htype hit = OSHU_SLIDER_HIT then time hit + slider_duration hit else time hit)"

text \<open>The two links of node \<open>i\<close> in a list of \<open>n\<close> nodes.\<close>

definition hit_previous :: "nat \<Rightarrow> nat option" where
  "hit_previous i = (case i of 0 \<Rightarrow> None | Suc k \<Rightarrow> Some k)"

definition hit_next :: "nat \<Rightarrow> nat \<Rightarrow> nat option" where
  "hit_next n i = (if Suc i < n then Some (Suc i) else None)"

subsection \<open>Game state flags\<close>

text \<open>
  Modelled from the spec: the enumerators of \<^verbatim>\<open>enum oshu_game_state\<close> are declared in a
  header that is not part of the sources at hand. The specification describes them as
  orthogonal flags, so each one is a distinct single bit of the \<^verbatim>\<open>int\<close> field
  \<^verbatim>\<open>game->state\<close>. Nothing below depends on which bit a flag occupies.
\<close>

definition OSHU_USERPLAY :: "32 word" where "OSHU_USERPLAY = 2 ^ 0"
definition OSHU_AUTOPLAY :: "32 word" where "OSHU_AUTOPLAY = 2 ^ 1"
definition OSHU_PLAYING :: "32 word" where "OSHU_PLAYING = 2 ^ 2"
definition OSHU_PAUSED :: "32 word" where "OSHU_PAUSED = 2 ^ 3"
definition OSHU_FINISHED :: "32 word" where "OSHU_FINISHED = 2 ^ 4"
definition OSHU_STOPPING :: "32 word" where "OSHU_STOPPING = 2 ^ 5"

text \<open>The C condition \<^verbatim>\<open>state & flag\<close>: true when the conjunction is not zero.\<close>

definition flag_set :: "32 word \<Rightarrow> 32 word \<Rightarrow> bool" where
  "flag_set s f = (s AND f \<noteq> 0)"

subsection \<open>Clock, audio, beatmap, game\<close>

text \<open>
  \<^verbatim>\<open>struct oshu_clock\<close>. Its field \<^verbatim>\<open>before\<close> is called \<open>clock_before\<close> here: \<^verbatim>\<open>before\<close>
  is an infix operator of Standard ML, which the code generator does not rename.
\<close>

record oshu_clock =
  now :: real
  clock_before :: real
  system :: real
  audio :: real

text \<open>
  \<^verbatim>\<open>struct oshu_audio\<close>: the position of the music stream
  (\<^verbatim>\<open>audio.music.current_timestamp\<close>) and whether the SDL audio device is paused, which
  is what \<^verbatim>\<open>SDL_PauseAudioDevice\<close> sets in \<^verbatim>\<open>oshu_play_audio\<close> and \<^verbatim>\<open>oshu_pause_audio\<close>.
\<close>

record oshu_audio =
  current_timestamp :: real
  device_paused :: bool

record oshu_difficulty =
  leniency :: real
  approach_time :: real

record oshu_beatmap =
  hits :: "oshu_hit list"
  difficulty :: oshu_difficulty

datatype oshu_game_screen = oshu_play_screen | oshu_pause_screen | oshu_score_screen

datatype oshu_key =
  OSHU_UNKNOWN_KEY
  | OSHU_LEFT_PINKY | OSHU_LEFT_RING | OSHU_LEFT_MIDDLE | OSHU_LEFT_INDEX
  | OSHU_THUMBS
  | OSHU_RIGHT_INDEX | OSHU_RIGHT_MIDDLE | OSHU_RIGHT_RING | OSHU_RIGHT_PINKY
  | OSHU_LEFT_BUTTON

text \<open>One entry per call of a callback of \<^verbatim>\<open>game->mode\<close>.\<close>

datatype mode_call = PRESS oshu_key | RELEASE oshu_key | RELINQUISH

text \<open>
  \<^verbatim>\<open>struct oshu_game\<close>. The field \<open>game_audio\<close> is \<^verbatim>\<open>game->audio\<close>. The field \<open>screen\<close>
  is the one \<^verbatim>\<open>screens/play.c\<close> assigns. The field \<open>mode_calls\<close> is not in the C
  structure: it records, in order, the calls made to the callbacks of the game mode.
\<close>

record oshu_game =
  beatmap :: oshu_beatmap
  game_audio :: oshu_audio
  clock :: oshu_clock
  state :: "32 word"
  hit_cursor :: nat
  screen :: oshu_game_screen
  mode_calls :: "mode_call list"

text \<open>
  What the game module calls but does not define: the callbacks of the game mode
  (\<^verbatim>\<open>game->mode->press\<close>, \<^verbatim>\<open>release\<close>, \<^verbatim>\<open>relinquish\<close>), each free to change the game,
  and the position the music stream reports after \<^verbatim>\<open>oshu_seek_music\<close> was asked for a
  target (\<^verbatim>\<open>oshu_seek_stream\<close> is not part of the sources at hand).
\<close>

record externals =
  mode_press :: "oshu_key \<Rightarrow> oshu_game \<Rightarrow> oshu_game"
  mode_release :: "oshu_key \<Rightarrow> oshu_game \<Rightarrow> oshu_game"
  mode_relinquish :: "oshu_game \<Rightarrow> oshu_game"
  seek_stream :: "real \<Rightarrow> real"

definition call_press :: "externals \<Rightarrow> oshu_key \<Rightarrow> oshu_game \<Rightarrow> oshu_game" where
  "call_press x key game = (mode_press x key game)\<lparr>mode_calls := mode_calls game @ [PRESS key]\<rparr>"

definition call_release :: "externals \<Rightarrow> oshu_key \<Rightarrow> oshu_game \<Rightarrow> oshu_game" where
  "call_release x key game =
     (mode_release x key game)\<lparr>mode_calls := mode_calls game @ [RELEASE key]\<rparr>"

definition call_relinquish :: "externals \<Rightarrow> oshu_game \<Rightarrow> oshu_game" where
  "call_relinquish x game = (mode_relinquish x game)\<lparr>mode_calls := mode_calls game @ [RELINQUISH]\<rparr>"

definition oshu_play_audio :: "oshu_game \<Rightarrow> oshu_game" where
  "oshu_play_audio game = game\<lparr>game_audio := (game_audio game)\<lparr>device_paused := False\<rparr>\<rparr>"

definition oshu_pause_audio :: "oshu_game \<Rightarrow> oshu_game" where
  "oshu_pause_audio game = game\<lparr>game_audio := (game_audio game)\<lparr>device_paused := True\<rparr>\<rparr>"

definition oshu_seek_music :: "externals \<Rightarrow> oshu_game \<Rightarrow> real \<Rightarrow> oshu_game" where
  "oshu_seek_music x game target =
     game\<lparr>game_audio := (game_audio game)\<lparr>current_timestamp := seek_stream x target\<rparr>\<rparr>"

section \<open>The clock\<close>

text \<open>
  \<^verbatim>\<open>update_clock\<close> reads two things from outside: \<^verbatim>\<open>SDL_GetTicks()\<close>, an unsigned 32-bit
  count of milliseconds, here the argument \<open>ticks\<close>, and the position of the music
  stream, which the audio thread advances, here the field of \<open>game_audio\<close>.

  \<open>update_clock_select\<close> is the body of \<^verbatim>\<open>update_clock\<close> up to and including the
  \<^verbatim>\<open>if\<close>/\<^verbatim>\<open>else if\<close> chain; \<open>update_clock\<close> adds the last statement, under the
  comment \<^verbatim>\<open>force monotonicity\<close>.
\<close>

definition update_clock_select :: "oshu_game \<Rightarrow> 32 word \<Rightarrow> oshu_clock" where
  "update_clock_select game ticks =
     (let clock0 = clock game;
          system' = real (unat ticks) / 1000;
          diff = system' - system clock0;
          prev_audio = audio clock0;
          clock1 = clock0\<lparr>audio := current_timestamp (game_audio game),
                          clock_before := now clock0,
                          system := system'\<rparr>
      in if \<not> flag_set (state game) OSHU_PLAYING then clock1
         else if clock_before clock1 < 0 then clock1\<lparr>now := clock_before clock1 + diff\<rparr>
         else if audio clock1 = prev_audio then clock1\<lparr>now := clock_before clock1 + diff\<rparr>
         else clock1\<lparr>now := audio clock1\<rparr>)"

definition update_clock :: "oshu_game \<Rightarrow> 32 word \<Rightarrow> oshu_game" where
  "update_clock game ticks =
     (let clock1 = update_clock_select game ticks
      in game\<lparr>clock := (if now clock1 < clock_before clock1 then clock1\<lparr>now := clock_before clock1\<rparr>
                         else clock1)\<rparr>)"

text \<open>
  A run of frames. Before each call of \<^verbatim>\<open>update_clock\<close> the surroundings choose the
  tick count, the position of the music stream and the state flags; the result lists
  \<^verbatim>\<open>clock.now\<close> after each call.
\<close>

fun update_clock_run :: "oshu_game \<Rightarrow> (32 word \<times> real \<times> 32 word) list \<Rightarrow> real list" where
  "update_clock_run game [] = []"
| "update_clock_run game ((ticks, position, flags) # frames) =
     (let game' = update_clock
            (game\<lparr>game_audio := (game_audio game)\<lparr>current_timestamp := position\<rparr>,
                   state := flags\<rparr>) ticks
      in now (clock game') # update_clock_run game' frames)"

section \<open>Seeking in the song\<close>

text \<open>
  The loop of \<^verbatim>\<open>rewind_music\<close>, on the nodes \<open>hs\<close> and the cursor \<open>c\<close>; \<open>now1\<close> is
  \<^verbatim>\<open>game->clock.now\<close>, which the loop reads and never writes. When the cursor leaves
  the list through the \<^verbatim>\<open>previous\<close> link of the head, the next test of the loop
  dereferences \<^verbatim>\<open>NULL\<close>.
\<close>

function rewind_walk :: "real \<Rightarrow> oshu_hit list \<Rightarrow> nat \<Rightarrow> (oshu_hit list \<times> nat) option" where
  "rewind_walk now1 hs c =
     (if time (hs ! c) > now1 + 1 then
        (case hit_previous c of
           None \<Rightarrow> None
         | Some p \<Rightarrow> rewind_walk now1 (hs[c := (hs ! c)\<lparr>hstate := OSHU_INITIAL_HIT\<rparr>]) p)
      else Some (hs, c))"
  by pat_completeness auto
termination
  by (relation "measure (\<lambda>(now1, hs, c). c)")
     (auto simp: hit_previous_def split: nat.splits)

declare rewind_walk.simps [simp del]

text \<open>The loop of \<^verbatim>\<open>forward_music\<close>.\<close>

function forward_walk :: "real \<Rightarrow> oshu_hit list \<Rightarrow> nat \<Rightarrow> (oshu_hit list \<times> nat) option" where
  "forward_walk now1 hs c =
     (if time (hs ! c) < now1 + 1 then
        (case hit_next (length hs) c of
           None \<Rightarrow> None
         | Some n \<Rightarrow> forward_walk now1 (hs[c := (hs ! c)\<lparr>hstate := OSHU_SKIPPED_HIT\<rparr>]) n)
      else Some (hs, c))"
  by pat_completeness auto
termination
  by (relation "measure (\<lambda>(now1, hs, c). length hs - c)")
     (auto simp: hit_next_def split: if_splits)

declare forward_walk.simps [simp del]

text \<open>
  Storing the nodes and the cursor a loop ends with. A cursor that does not point into
  the list fails the \<^verbatim>\<open>assert\<close> before the loop.
\<close>

definition walk_cursor ::
  "(oshu_hit list \<Rightarrow> nat \<Rightarrow> (oshu_hit list \<times> nat) option) \<Rightarrow> oshu_game \<Rightarrow> oshu_game option" where
  "walk_cursor walk game =
     (if hit_cursor game < length (hits (beatmap game)) then
        (case walk (hits (beatmap game)) (hit_cursor game) of
           None \<Rightarrow> None
         | Some (hs, c) \<Rightarrow> Some (game\<lparr>beatmap := (beatmap game)\<lparr>hits := hs\<rparr>, hit_cursor := c\<rparr>))
      else None)"

text \<open>
  \<^verbatim>\<open>rewind_music\<close> up to its loop (\<^verbatim>\<open>dump_state\<close> only prints), then the whole
  function.
\<close>

definition rewind_music_seek :: "externals \<Rightarrow> oshu_game \<Rightarrow> real \<Rightarrow> oshu_game" where
  "rewind_music_seek x game offset =
     (let game1 = oshu_seek_music x game (current_timestamp (game_audio game) - offset);
          game2 = game1\<lparr>clock := (clock game1)\<lparr>now := current_timestamp (game_audio game1)\<rparr>\<rparr>
      in call_relinquish x game2)"

definition rewind_music :: "externals \<Rightarrow> oshu_game \<Rightarrow> real \<Rightarrow> oshu_game option" where
  "rewind_music x game offset =
     (let game1 = rewind_music_seek x game offset
      in walk_cursor (rewind_walk (now (clock game1))) game1)"

definition forward_music_seek :: "externals \<Rightarrow> oshu_game \<Rightarrow> real \<Rightarrow> oshu_game" where
  "forward_music_seek x game offset =
     (let game1 = oshu_seek_music x game (current_timestamp (game_audio game) + offset);
          game2 = game1\<lparr>clock := (clock game1)\<lparr>now := current_timestamp (game_audio game1)\<rparr>\<rparr>;
          game3 = call_relinquish x game2
      in if \<not> flag_set (state game3) OSHU_PAUSED then oshu_play_audio game3 else game3)"

definition forward_music :: "externals \<Rightarrow> oshu_game \<Rightarrow> real \<Rightarrow> oshu_game option" where
  "forward_music x game offset =
     (let game1 = forward_music_seek x game offset
      in walk_cursor (forward_walk (now (clock game1))) game1)"

section \<open>Pausing and resuming\<close>

definition pause_game :: "oshu_game \<Rightarrow> oshu_game" where
  "pause_game game =
     (let game1 = oshu_pause_audio game;
          game2 = game1\<lparr>state := state game1 OR OSHU_PAUSED\<rparr>
      in game2\<lparr>state := state game2 AND NOT OSHU_PLAYING\<rparr>)"

text \<open>The two assignments that end \<^verbatim>\<open>unpause_game\<close>.\<close>

definition set_playing :: "oshu_game \<Rightarrow> oshu_game" where
  "set_playing game =
     (let game1 = game\<lparr>state := state game AND NOT OSHU_PAUSED\<rparr>
      in game1\<lparr>state := state game1 OR OSHU_PLAYING\<rparr>)"

definition unpause_game :: "externals \<Rightarrow> oshu_game \<Rightarrow> oshu_game option" where
  "unpause_game x game =
     (if now (clock game) \<ge> 0 then
        (if \<not> flag_set (state game) OSHU_AUTOPLAY then
           (case rewind_music x game 1 of
              None \<Rightarrow> None
            | Some game1 \<Rightarrow> Some (set_playing (oshu_play_audio game1)))
         else Some (set_playing (oshu_play_audio game)))
      else Some (set_playing game))"

section \<open>Events\<close>

text \<open>
  The SDL types, as far as \<^verbatim>\<open>handle_event\<close> and \<^verbatim>\<open>translate_key\<close> tell their values
  apart: the last constructor of each type stands for every value the code does not
  name. A key symbol carries a scancode (the physical key) and a key code (\<^verbatim>\<open>sym\<close>,
  the character the keyboard layout gives that key); SDL fills in both.
\<close>

datatype SDL_Scancode =
  SDL_SCANCODE_Z | SDL_SCANCODE_X | SDL_SCANCODE_C | SDL_SCANCODE_V
  | SDL_SCANCODE_A | SDL_SCANCODE_S | SDL_SCANCODE_D | SDL_SCANCODE_F
  | SDL_SCANCODE_SPACE
  | SDL_SCANCODE_J | SDL_SCANCODE_K | SDL_SCANCODE_L | SDL_SCANCODE_SEMICOLON
  | SDL_SCANCODE_OTHER

datatype SDL_Keycode = SDLK_q | SDLK_ESCAPE | SDLK_PAGEUP | SDLK_PAGEDOWN | SDLK_OTHER

record SDL_Keysym =
  scancode :: SDL_Scancode
  sym :: SDL_Keycode

datatype SDL_WindowEventID =
  SDL_WINDOWEVENT_MINIMIZED | SDL_WINDOWEVENT_FOCUS_LOST | SDL_WINDOWEVENT_CLOSE
  | SDL_WINDOWEVENT_OTHER

text \<open>The first argument of \<open>SDL_KEYDOWN\<close> is \<^verbatim>\<open>event->key.repeat\<close>.\<close>

datatype SDL_Event =
  SDL_KEYDOWN nat SDL_Keysym
  | SDL_KEYUP SDL_Keysym
  | SDL_MOUSEBUTTONDOWN
  | SDL_MOUSEBUTTONUP
  | SDL_WINDOWEVENT SDL_WindowEventID
  | SDL_OTHEREVENT

definition translate_key :: "SDL_Keysym \<Rightarrow> oshu_key" where
  "translate_key keysym =
     (case scancode keysym of
        SDL_SCANCODE_Z \<Rightarrow> OSHU_LEFT_MIDDLE
      | SDL_SCANCODE_X \<Rightarrow> OSHU_LEFT_INDEX
      | SDL_SCANCODE_C \<Rightarrow> OSHU_RIGHT_INDEX
      | SDL_SCANCODE_V \<Rightarrow> OSHU_RIGHT_MIDDLE
      | SDL_SCANCODE_A \<Rightarrow> OSHU_LEFT_PINKY
      | SDL_SCANCODE_S \<Rightarrow> OSHU_LEFT_RING
      | SDL_SCANCODE_D \<Rightarrow> OSHU_LEFT_MIDDLE
      | SDL_SCANCODE_F \<Rightarrow> OSHU_LEFT_INDEX
      | SDL_SCANCODE_SPACE \<Rightarrow> OSHU_THUMBS
      | SDL_SCANCODE_J \<Rightarrow> OSHU_RIGHT_INDEX
      | SDL_SCANCODE_K \<Rightarrow> OSHU_RIGHT_MIDDLE
      | SDL_SCANCODE_L \<Rightarrow> OSHU_RIGHT_RING
      | SDL_SCANCODE_SEMICOLON \<Rightarrow> OSHU_RIGHT_PINKY
      | SDL_SCANCODE_OTHER \<Rightarrow> OSHU_UNKNOWN_KEY)"

text \<open>The condition \<^verbatim>\<open>(state & OSHU_USERPLAY) && (state & OSHU_PLAYING)\<close>.\<close>

definition user_playing :: "oshu_game \<Rightarrow> bool" where
  "user_playing game =
     (flag_set (state game) OSHU_USERPLAY \<and> flag_set (state game) OSHU_PLAYING)"

definition handle_keydown :: "externals \<Rightarrow> oshu_game \<Rightarrow> nat \<Rightarrow> SDL_Keysym \<Rightarrow> oshu_game option" where
  "handle_keydown x game repeat keysym =
     (if repeat \<noteq> 0 then Some game
      else if flag_set (state game) (OSHU_AUTOPLAY OR OSHU_PAUSED) then
        (case sym keysym of
           SDLK_q \<Rightarrow> Some (game\<lparr>state := state game OR OSHU_STOPPING\<rparr>)
         | SDLK_ESCAPE \<Rightarrow> unpause_game x game
         | SDLK_PAGEUP \<Rightarrow> rewind_music x game 10
         | SDLK_PAGEDOWN \<Rightarrow> forward_music x game 20
         | SDLK_OTHER \<Rightarrow> Some game)
      else if user_playing game then
        (case sym keysym of
           SDLK_ESCAPE \<Rightarrow> Some (pause_game game)
         | SDLK_PAGEUP \<Rightarrow> rewind_music x game 10
         | SDLK_PAGEDOWN \<Rightarrow> forward_music x game 20
         | _ \<Rightarrow>
           (let key = translate_key keysym
            in if key \<noteq> OSHU_UNKNOWN_KEY then Some (call_press x key game) else Some game))
      else
        (case sym keysym of
           SDLK_q \<Rightarrow> Some (game\<lparr>state := state game OR OSHU_STOPPING\<rparr>)
         | _ \<Rightarrow> Some game))"

definition handle_event :: "externals \<Rightarrow> oshu_game \<Rightarrow> SDL_Event \<Rightarrow> oshu_game option" where
  "handle_event x game event =
     (case event of
        SDL_KEYDOWN repeat keysym \<Rightarrow> handle_keydown x game repeat keysym
      | SDL_KEYUP keysym \<Rightarrow>
          (if user_playing game then
             (let key = translate_key keysym
              in if key \<noteq> OSHU_UNKNOWN_KEY then Some (call_release x key game) else Some game)
           else Some game)
      | SDL_MOUSEBUTTONDOWN \<Rightarrow>
          (if user_playing game then Some (call_press x OSHU_LEFT_BUTTON game) else Some game)
      | SDL_MOUSEBUTTONUP \<Rightarrow>
          (if user_playing game then Some (call_release x OSHU_LEFT_BUTTON game) else Some game)
      | SDL_WINDOWEVENT window_event \<Rightarrow>
          (case window_event of
             SDL_WINDOWEVENT_MINIMIZED \<Rightarrow>
               (if user_playing game then
                  (if hit_cursor game < length (hits (beatmap game)) then
                     (if hit_next (length (hits (beatmap game))) (hit_cursor game) \<noteq> None
                      then Some (pause_game game) else Some game)
                   else None)
                else Some game)
           | SDL_WINDOWEVENT_FOCUS_LOST \<Rightarrow>
               (if user_playing game then
                  (if hit_cursor game < length (hits (beatmap game)) then
                     (if hit_next (length (hits (beatmap game))) (hit_cursor game) \<noteq> None
                      then Some (pause_game game) else Some game)
                   else None)
                else Some game)
           | SDL_WINDOWEVENT_CLOSE \<Rightarrow> Some (game\<lparr>state := state game OR OSHU_STOPPING\<rparr>)
           | SDL_WINDOWEVENT_OTHER \<Rightarrow> Some game)
      | SDL_OTHEREVENT \<Rightarrow> Some game)"

section \<open>The end of the song\<close>

text \<open>
  \<^verbatim>\<open>check_end\<close> of \<^verbatim>\<open>game.c\<close> (\<^verbatim>\<open>end\<close> only prints). With the cursor on the only node of
  a list, \<^verbatim>\<open>hit_cursor->previous\<close> is \<^verbatim>\<open>NULL\<close> and \<^verbatim>\<open>oshu_hit_end_time\<close> dereferences it.
\<close>

definition check_end :: "oshu_game \<Rightarrow> oshu_game option" where
  "check_end game =
     (let hs = hits (beatmap game) in
      if flag_set (state game) OSHU_FINISHED then Some game
      else if \<not> hit_cursor game < length hs then None
      else if hit_next (length hs) (hit_cursor game) \<noteq> None then Some game
      else
        (case hit_previous (hit_cursor game) of
           None \<Rightarrow> None
         | Some p \<Rightarrow>
             if now (clock game) > oshu_hit_end_time (hs ! p) + leniency (difficulty (beatmap game))
             then Some (game\<lparr>state := OSHU_FINISHED OR OSHU_PLAYING\<rparr>)
             else Some game))"

text \<open>
  \<^verbatim>\<open>check_end\<close> of \<^verbatim>\<open>screens/play.c\<close>, named \<open>play_check_end\<close> here. The three calls
  before the assignment paint and print.
\<close>

definition play_check_end :: "oshu_game \<Rightarrow> oshu_game option" where
  "play_check_end game =
     (let hs = hits (beatmap game) in
      if \<not> hit_cursor game < length hs then None
      else if hit_next (length hs) (hit_cursor game) \<noteq> None then Some game
      else
        (let delay = leniency (difficulty (beatmap game))
                     + approach_time (difficulty (beatmap game))
         in case hit_previous (hit_cursor game) of
              None \<Rightarrow> None
            | Some p \<Rightarrow>
                if now (clock game) > oshu_hit_end_time (hs ! p) + delay
                then Some (game\<lparr>screen := oshu_score_screen\<rparr>)
                else Some game))"

section \<open>Looking around the cursor\<close>

text \<open>The two loops of \<^verbatim>\<open>oshu_look_hit_back\<close>, then the function.\<close>

function look_back_backward :: "oshu_hit list \<Rightarrow> real \<Rightarrow> nat \<Rightarrow> nat option" where
  "look_back_backward hs target hit =
     (if oshu_hit_end_time (hs ! hit) > target then
        (case hit_previous hit of
           None \<Rightarrow> None
         | Some p \<Rightarrow> look_back_backward hs target p)
      else Some hit)"
  by pat_completeness auto
termination
  by (relation "measure (\<lambda>(hs, target, hit). hit)")
     (auto simp: hit_previous_def split: nat.splits)

declare look_back_backward.simps [simp del]

function look_back_forward :: "oshu_hit list \<Rightarrow> real \<Rightarrow> nat \<Rightarrow> nat option" where
  "look_back_forward hs target hit =
     (if oshu_hit_end_time (hs ! hit) < target then
        (case hit_next (length hs) hit of
           None \<Rightarrow> None
         | Some n \<Rightarrow> look_back_forward hs target n)
      else Some hit)"
  by pat_completeness auto
termination
  by (relation "measure (\<lambda>(hs, target, hit). length hs - hit)")
     (auto simp: hit_next_def split: if_splits)

declare look_back_forward.simps [simp del]

definition oshu_look_hit_back :: "oshu_game \<Rightarrow> real \<Rightarrow> nat option" where
  "oshu_look_hit_back game offset =
     (let hs = hits (beatmap game);
          target = now (clock game) - offset
      in if hit_cursor game < length hs then
           (case look_back_backward hs target (hit_cursor game) of
              None \<Rightarrow> None
            | Some hit \<Rightarrow> look_back_forward hs target hit)
         else None)"

text \<open>The two loops of \<^verbatim>\<open>oshu_look_hit_up\<close>, then the function.\<close>

function look_up_forward :: "oshu_hit list \<Rightarrow> real \<Rightarrow> nat \<Rightarrow> nat option" where
  "look_up_forward hs target hit =
     (if time (hs ! hit) < target then
        (case hit_next (length hs) hit of
           None \<Rightarrow> None
         | Some n \<Rightarrow> look_up_forward hs target n)
      else Some hit)"
  by pat_completeness auto
termination
  by (relation "measure (\<lambda>(hs, target, hit). length hs - hit)")
     (auto simp: hit_next_def split: if_splits)

declare look_up_forward.simps [simp del]

function look_up_backward :: "oshu_hit list \<Rightarrow> real \<Rightarrow> nat \<Rightarrow> nat option" where
  "look_up_backward hs target hit =
     (if time (hs ! hit) > target then
        (case hit_previous hit of
           None \<Rightarrow> None
         | Some p \<Rightarrow> look_up_backward hs target p)
      else Some hit)"
  by pat_completeness auto
termination
  by (relation "measure (\<lambda>(hs, target, hit). hit)")
     (auto simp: hit_previous_def split: nat.splits)

declare look_up_backward.simps [simp del]

definition oshu_look_hit_up :: "oshu_game \<Rightarrow> real \<Rightarrow> nat option" where
  "oshu_look_hit_up game offset =
     (let hs = hits (beatmap game);
          target = now (clock game) + offset
      in if hit_cursor game < length hs then
           (case look_up_forward hs target (hit_cursor game) of
              None \<Rightarrow> None
            | Some hit \<Rightarrow> look_up_backward hs target hit)
         else None)"

section \<open>Sequences of steps\<close>

datatype game_step = PAUSE_GAME | UNPAUSE_GAME | HANDLE_EVENT SDL_Event | CHECK_END

definition run_step :: "externals \<Rightarrow> oshu_game \<Rightarrow> game_step \<Rightarrow> oshu_game option" where
  "run_step x game step =
     (case step of
        PAUSE_GAME \<Rightarrow> Some (pause_game game)
      | UNPAUSE_GAME \<Rightarrow> unpause_game x game
      | HANDLE_EVENT event \<Rightarrow> handle_event x game event
      | CHECK_END \<Rightarrow> check_end game)"

fun run_steps :: "externals \<Rightarrow> oshu_game \<Rightarrow> game_step list \<Rightarrow> oshu_game option" where
  "run_steps x game [] = Some game"
| "run_steps x game (step # steps) =
     (case run_step x game step of
        None \<Rightarrow> None
      | Some game' \<Rightarrow> run_steps x game' steps)"

text \<open>\<^verbatim>\<open>rewind_music\<close>, then \<^verbatim>\<open>forward_music\<close> by the same offset.\<close>

definition rewind_then_forward :: "externals \<Rightarrow> oshu_game \<Rightarrow> real \<Rightarrow> oshu_game option" where
  "rewind_then_forward x game offset =
     (case rewind_music x game offset of
        None \<Rightarrow> None
      | Some game' \<Rightarrow> forward_music x game' offset)"

section \<open>Example data\<close>

text \<open>
  A game in its lead-in, ten milliseconds before the song starts, and three frames:
  the end of the lead-in, the first position the music stream reports, a later one.
\<close>

definition example_clock_game :: oshu_game where
  "example_clock_game =
     \<lparr>beatmap = \<lparr>hits = [], difficulty = \<lparr>leniency = 0.1, approach_time = 0.8\<rparr>\<rparr>,
      game_audio = \<lparr>current_timestamp = 0, device_paused = True\<rparr>,
      clock = \<lparr>now = -0.01, clock_before = -0.02, system = 1, audio = 0\<rparr>,
      state = OSHU_USERPLAY OR OSHU_PLAYING,
      hit_cursor = 0,
      screen = oshu_play_screen,
      mode_calls = []\<rparr>"

definition example_frames :: "(32 word \<times> real \<times> 32 word) list" where
  "example_frames =
     [(1016, 0, OSHU_USERPLAY OR OSHU_PLAYING),
      (1033, 0.005, OSHU_USERPLAY OR OSHU_PLAYING),
      (1050, 0.046, OSHU_USERPLAY OR OSHU_PLAYING)]"

text \<open>A game whose music stream has not moved since the last frame, 16 ms ago.\<close>

definition example_stalled_game :: oshu_game where
  "example_stalled_game =
     \<lparr>beatmap = \<lparr>hits = [], difficulty = \<lparr>leniency = 0.1, approach_time = 0.8\<rparr>\<rparr>,
      game_audio = \<lparr>current_timestamp = 1.9, device_paused = False\<rparr>,
      clock = \<lparr>now = 2, clock_before = 1.984, system = 5, audio = 1.9\<rparr>,
      state = OSHU_USERPLAY OR OSHU_PLAYING,
      hit_cursor = 0,
      screen = oshu_play_screen,
      mode_calls = []\<rparr>"

text \<open>Nodes for the examples: a circle at a time, and a sentinel.\<close>

definition circle_at :: "real \<Rightarrow> oshu_hit" where
  "circle_at t =
     \<lparr>time = t, htype = OSHU_CIRCLE_HIT, slider_duration = 0, hstate = OSHU_INITIAL_HIT\<rparr>"

definition sentinel_at :: "real \<Rightarrow> oshu_hit" where
  "sentinel_at t =
     \<lparr>time = t, htype = OSHU_OTHER_HIT, slider_duration = 0, hstate = OSHU_INITIAL_HIT\<rparr>"

text \<open>
  A game on the nodes \<open>hs\<close> with the cursor on node \<open>c\<close>, the clock and the music
  stream both at \<open>t\<close>, played by the user. The leniency is half a second and the
  approach time one second.
\<close>

definition example_game :: "oshu_hit list \<Rightarrow> nat \<Rightarrow> real \<Rightarrow> oshu_game" where
  "example_game hs c t =
     \<lparr>beatmap = \<lparr>hits = hs, difficulty = \<lparr>leniency = 0.5, approach_time = 1.0\<rparr>\<rparr>,
      game_audio = \<lparr>current_timestamp = t, device_paused = False\<rparr>,
      clock = \<lparr>now = t, clock_before = t, system = 0, audio = t\<rparr>,
      state = OSHU_USERPLAY OR OSHU_PLAYING,
      hit_cursor = c,
      screen = oshu_play_screen,
      mode_calls = []\<rparr>"

text \<open>A beatmap with a single object, which ends at 10.\<close>

definition single_object :: "oshu_hit list" where
  "single_object = [sentinel_at (-100), circle_at 10, sentinel_at 100]"

text \<open>The timeline 1, 2, 3, 5, 8 between a head sentinel at \<open>h\<close> and a tail sentinel at \<open>t\<close>.\<close>

definition timeline :: "real \<Rightarrow> real \<Rightarrow> oshu_hit list" where
  "timeline h t =
     [sentinel_at h, circle_at 1, circle_at 2, circle_at 3, circle_at 5, circle_at 8,
      sentinel_at t]"

text \<open>Two objects at the same time.\<close>

definition tied_objects :: "oshu_hit list" where
  "tied_objects = [sentinel_at (-100), circle_at 2, circle_at 2, sentinel_at 100]"

text \<open>The same timeline in the middle of a game: the first four objects are resolved.\<close>

definition played_timeline :: "oshu_hit list" where
  "played_timeline =
     [sentinel_at (-100),
      (circle_at 1)\<lparr>hstate := OSHU_GOOD_HIT\<rparr>,
      (circle_at 2)\<lparr>hstate := OSHU_GOOD_HIT\<rparr>,
      (circle_at 3)\<lparr>hstate := OSHU_MISSED_HIT\<rparr>,
      (circle_at 5)\<lparr>hstate := OSHU_GOOD_HIT\<rparr>,
      circle_at 8,
      sentinel_at 100]"

text \<open>
  Surroundings for the examples. The game mode is not part of the sources at hand;
  the specification says of \<^verbatim>\<open>relinquish\<close> that it ``forcibly releases any object
  currently held in the sliding state''. Here it puts every such object back to
  initial, and \<^verbatim>\<open>press\<close> and \<^verbatim>\<open>release\<close> do nothing. The music stream seeks exactly,
  except that it does not go below zero.
\<close>

definition example_externals :: externals where
  "example_externals =
     \<lparr>mode_press = (\<lambda>key game. game),
      mode_release = (\<lambda>key game. game),
      mode_relinquish = (\<lambda>game. game\<lparr>beatmap := (beatmap game)\<lparr>hits :=
         map (\<lambda>hit. if hstate hit = OSHU_SLIDING_HIT then hit\<lparr>hstate := OSHU_INITIAL_HIT\<rparr>
                     else hit)
           (hits (beatmap game))\<rparr>\<rparr>),
      seek_stream = (\<lambda>target. max 0 target)\<rparr>"

text \<open>A slider for the examples, and a timeline whose slider at 3 is being held.\<close>

definition slider_at :: "real \<Rightarrow> real \<Rightarrow> oshu_hit" where
  "slider_at t d =
     \<lparr>time = t, htype = OSHU_SLIDER_HIT, slider_duration = d, hstate = OSHU_INITIAL_HIT\<rparr>"

definition held_timeline :: "oshu_hit list" where
  "held_timeline =
     [sentinel_at (-100),
      (circle_at 1)\<lparr>hstate := OSHU_GOOD_HIT\<rparr>,
      (circle_at 2)\<lparr>hstate := OSHU_GOOD_HIT\<rparr>,
      (slider_at 3 2)\<lparr>hstate := OSHU_SLIDING_HIT\<rparr>,
      circle_at 8,
      sentinel_at 100]"

text \<open>A slider from 1 to 11 with a circle at 2 inside it.\<close>

definition overlapping_objects :: "oshu_hit list" where
  "overlapping_objects = [sentinel_at (-100), slider_at 1 10, circle_at 2, sentinel_at 100]"

section \<open>State flags\<close>

lemma flag_set_single: "n < 32 \<Longrightarrow> flag_set s (2 ^ n) = bit s n"
  by (simp add: flag_set_def and_exp_eq_0_iff_not_bit)

lemma flag_set_USERPLAY: "flag_set s OSHU_USERPLAY = bit s 0"
  unfolding OSHU_USERPLAY_def by (rule flag_set_single) simp

lemma flag_set_AUTOPLAY: "flag_set s OSHU_AUTOPLAY = bit s 1"
  unfolding OSHU_AUTOPLAY_def by (rule flag_set_single) simp

lemma flag_set_PLAYING: "flag_set s OSHU_PLAYING = bit s 2"
  unfolding OSHU_PLAYING_def by (rule flag_set_single) simp

lemma flag_set_PAUSED: "flag_set s OSHU_PAUSED = bit s 3"
  unfolding OSHU_PAUSED_def by (rule flag_set_single) simp

lemma flag_set_FINISHED: "flag_set s OSHU_FINISHED = bit s 4"
  unfolding OSHU_FINISHED_def by (rule flag_set_single) simp

lemma flag_set_STOPPING: "flag_set s OSHU_STOPPING = bit s 5"
  unfolding OSHU_STOPPING_def by (rule flag_set_single) simp

lemma flag_set_OR: "flag_set s (a OR b) = (flag_set s a \<or> flag_set s b)"
  by (simp add: flag_set_def bit.conj_disj_distrib or_eq_0_iff)

lemma bit_single: "bit (2 ^ k :: 32 word) n = (n = k \<and> k < 32)"
  by (auto simp: bit_simps)

lemma bit_USERPLAY: "bit OSHU_USERPLAY n = (n = 0)"
  unfolding OSHU_USERPLAY_def by (simp only: bit_single) simp

lemma bit_AUTOPLAY: "bit OSHU_AUTOPLAY n = (n = 1)"
  unfolding OSHU_AUTOPLAY_def by (simp only: bit_single) simp

lemma bit_PLAYING: "bit OSHU_PLAYING n = (n = 2)"
  unfolding OSHU_PLAYING_def by (simp only: bit_single) simp

lemma bit_PAUSED: "bit OSHU_PAUSED n = (n = 3)"
  unfolding OSHU_PAUSED_def by (simp only: bit_single) simp

lemma bit_FINISHED: "bit OSHU_FINISHED n = (n = 4)"
  unfolding OSHU_FINISHED_def by (simp only: bit_single) simp

lemma bit_STOPPING: "bit OSHU_STOPPING n = (n = 5)"
  unfolding OSHU_STOPPING_def by (simp only: bit_single) simp

lemmas flag_simps =
  flag_set_USERPLAY flag_set_AUTOPLAY flag_set_PLAYING flag_set_PAUSED flag_set_FINISHED
  flag_set_STOPPING flag_set_OR bit_USERPLAY bit_AUTOPLAY bit_PLAYING bit_PAUSED bit_FINISHED
  bit_STOPPING bit_or_iff bit_and_iff bit_not_iff

section \<open>The clock never goes back\<close>

lemma update_clock_now_ge: "now (clock game) \<le> now (clock (update_clock game ticks))"
  by (simp add: update_clock_def update_clock_select_def Let_def)

lemma update_clock_now_max:
  "now (clock (update_clock game ticks)) =
     max (now (update_clock_select game ticks)) (now (clock game))"
  by (simp add: update_clock_def update_clock_select_def Let_def max_def)

lemma update_clock_run_sorted: "sorted (now (clock game) # update_clock_run game frames)"
proof (induction frames arbitrary: game)
  case Nil
  show ?case by simp
next
  case (Cons frame frames)
  obtain ticks position flags where frame: "frame = (ticks, position, flags)"
    by (cases frame)
  define sampled where
    "sampled = game\<lparr>game_audio := (game_audio game)\<lparr>current_timestamp := position\<rparr>,
                     state := flags\<rparr>"
  define game' where "game' = update_clock sampled ticks"
  have "now (clock game) \<le> now (clock game')"
    using update_clock_now_ge [of sampled ticks] by (simp add: game'_def sampled_def)
  moreover have "sorted (now (clock game') # update_clock_run game' frames)"
    by (rule Cons.IH)
  ultimately have "sorted (now (clock game) # now (clock game') # update_clock_run game' frames)"
    by (simp only: sorted2)
  then show ?case
    by (simp only: frame update_clock_run.simps Let_def game'_def [symmetric]
        sampled_def [symmetric])
qed

text \<open>
  C1. Whatever tick counts, stream positions and state flags a run of frames samples,
  \<^verbatim>\<open>clock.now\<close> never decreases: one call of \<^verbatim>\<open>update_clock\<close> leaves it at the greater
  of the value it selected and the value it had, and the values after each call of a
  run, starting with the value before the first, are in non-decreasing order.
\<close>

theorem update_clock_monotonic:
  "now (clock game) \<le> now (clock (update_clock game ticks))
   \<and> now (clock (update_clock game ticks))
       = max (now (update_clock_select game ticks)) (now (clock game))
   \<and> sorted (now (clock game) # update_clock_run game frames)"
  using update_clock_now_ge update_clock_now_max update_clock_run_sorted by blast

text \<open>
  On the example the lead-in ends at 6 ms, the first stream position (5 ms) is behind
  that and is held back, and the next one (46 ms) is taken.
\<close>

theorem update_clock_monotonic_witness:
  "update_clock_run example_clock_game example_frames = [0.006, 0.006, 0.046]
   \<and> sorted (now (clock example_clock_game)
               # update_clock_run example_clock_game example_frames)"
proof -
  have "update_clock_run example_clock_game example_frames = [0.006, 0.006, 0.046]"
    by (simp add: example_clock_game_def example_frames_def update_clock_def
        update_clock_select_def flag_simps)
  then show ?thesis
    using update_clock_monotonic [of example_clock_game 0 example_frames] by blast
qed

section \<open>What the clock selects\<close>

text \<open>
  C2. Before the clamp, one call of \<^verbatim>\<open>update_clock\<close> selects \<^verbatim>\<open>now\<close> by cases: unchanged
  when the game is not playing; the previous value plus the wall-clock time elapsed
  when the previous value is negative; the same when the stream position equals the
  one sampled at the previous call; the stream position otherwise. The previous
  value is kept in \<^verbatim>\<open>before\<close>, the two samples in \<^verbatim>\<open>system\<close> and \<^verbatim>\<open>audio\<close>, and the call
  changes nothing but the clock.
\<close>

theorem update_clock_select_cases:
  "now (update_clock_select game ticks) =
     (if \<not> flag_set (state game) OSHU_PLAYING then now (clock game)
      else if now (clock game) < 0
        then now (clock game) + (real (unat ticks) / 1000 - system (clock game))
      else if current_timestamp (game_audio game) = audio (clock game)
        then now (clock game) + (real (unat ticks) / 1000 - system (clock game))
      else current_timestamp (game_audio game))
   \<and> clock_before (update_clock_select game ticks) = now (clock game)
   \<and> system (update_clock_select game ticks) = real (unat ticks) / 1000
   \<and> audio (update_clock_select game ticks) = current_timestamp (game_audio game)
   \<and> update_clock game ticks =
       game\<lparr>clock := (update_clock_select game ticks)
         \<lparr>now := max (now (update_clock_select game ticks)) (now (clock game))\<rparr>\<rparr>"
  by (simp add: update_clock_def update_clock_select_def Let_def max_def)

theorem update_clock_select_cases_witness:
  "now (update_clock_select example_stalled_game 5016) = 2.016
   \<and> now (update_clock_select (example_stalled_game\<lparr>state := OSHU_USERPLAY OR OSHU_PAUSED\<rparr>) 5016) = 2
   \<and> now (update_clock_select example_clock_game 1016) = 0.006
   \<and> now (update_clock_select
       (example_stalled_game\<lparr>game_audio := \<lparr>current_timestamp = 2.01, device_paused = False\<rparr>\<rparr>)
       5016) = 2.01"
  using update_clock_select_cases [of example_stalled_game 5016]
    update_clock_select_cases [of "example_stalled_game\<lparr>state := OSHU_USERPLAY OR OSHU_PAUSED\<rparr>" 5016]
    update_clock_select_cases [of example_clock_game 1016]
    update_clock_select_cases [of
      "example_stalled_game\<lparr>game_audio := \<lparr>current_timestamp = 2.01, device_paused = False\<rparr>\<rparr>" 5016]
  by (simp add: example_stalled_game_def example_clock_game_def flag_simps)

section \<open>The end of the song\<close>

lemmas look_simps = look_back_backward.simps look_back_forward.simps look_up_forward.simps
  look_up_backward.simps hit_previous_def hit_next_def oshu_hit_end_time_def

text \<open>What each of the two functions does when it returns.\<close>

lemma check_end_finished_iff:
  assumes "check_end game = Some game'" and "\<not> flag_set (state game) OSHU_FINISHED"
  shows "flag_set (state game') OSHU_FINISHED \<longleftrightarrow>
     hit_next (length (hits (beatmap game))) (hit_cursor game) = None
     \<and> (\<exists>p. hit_previous (hit_cursor game) = Some p
          \<and> now (clock game) > oshu_hit_end_time (hits (beatmap game) ! p)
                + leniency (difficulty (beatmap game)))"
  using assms
  by (auto simp: check_end_def Let_def flag_simps split: if_splits option.splits)

lemma play_check_end_score_iff:
  assumes "play_check_end game = Some game'" and "screen game \<noteq> oshu_score_screen"
  shows "screen game' = oshu_score_screen \<longleftrightarrow>
     hit_next (length (hits (beatmap game))) (hit_cursor game) = None
     \<and> (\<exists>p. hit_previous (hit_cursor game) = Some p
          \<and> now (clock game) > oshu_hit_end_time (hits (beatmap game) ! p)
                + leniency (difficulty (beatmap game)) + approach_time (difficulty (beatmap game)))"
  using assms
  by (auto simp: play_check_end_def Let_def split: if_splits option.splits)

text \<open>
  On the beatmap with a single object ending at 10, the play screen switches to the
  score screen exactly from 11.5 on.
\<close>

lemma play_check_end_single:
  "play_check_end (example_game single_object 2 t) =
     Some (if t > 11.5 then (example_game single_object 2 t)\<lparr>screen := oshu_score_screen\<rparr>
           else example_game single_object 2 t)"
  by (simp add: play_check_end_def example_game_def single_object_def circle_at_def sentinel_at_def
      flag_simps look_simps)

text \<open>
  C3. The end of the song is to be declared only once \<^verbatim>\<open>now\<close> exceeds the end of the
  last object by the leniency plus the approach time: 11.5 for a single object ending
  at 10 with leniency 0.5 and approach time 1. \<^verbatim>\<open>check_end\<close> of \<^verbatim>\<open>game.c\<close> compares
  with the leniency alone, and sets \<^verbatim>\<open>OSHU_FINISHED\<close> at \<^verbatim>\<open>now = 11\<close> already.
\<close>

theorem check_end_ignores_approach_time:
  "check_end (example_game single_object 2 11) =
     Some ((example_game single_object 2 11)\<lparr>state := OSHU_FINISHED OR OSHU_PLAYING\<rparr>)
   \<and> oshu_hit_end_time (hits (beatmap (example_game single_object 2 11)) ! 1) = 10
   \<and> \<not> (11 :: real) > 10 + 0.5 + 1.0"
  by (simp add: check_end_def example_game_def single_object_def circle_at_def sentinel_at_def
      flag_simps look_simps)

section \<open>Looking around the cursor: the timeline 1, 2, 3, 5, 8\<close>

lemma cursor_cases: "c < 7 \<Longrightarrow> c = 0 \<or> c = 1 \<or> c = 2 \<or> c = 3 \<or> c = 4 \<or> c = 5 \<or> c = (6::nat)"
  by arith

text \<open>
  C5, as stated, fails: with \<^verbatim>\<open>now = 4\<close> and offset 2, \<^verbatim>\<open>oshu_look_hit_back\<close> returns the
  object at time 2, not the one at time 3.
\<close>

theorem look_hit_back_timeline_counterexample:
  "oshu_look_hit_back (example_game (timeline (-100) 100) 3 4) 2 = Some 2
   \<and> time (timeline (-100) 100 ! 2) = 2
   \<and> time (timeline (-100) 100 ! 2) \<noteq> 3"
  by (simp add: oshu_look_hit_back_def example_game_def timeline_def
      circle_at_def sentinel_at_def look_simps)

text \<open>
  C5, amended. On the timeline 1, 2, 3, 5, 8 with \<^verbatim>\<open>now = 4\<close>, whatever node the cursor
  is on and wherever the sentinels lie outside the objects, \<^verbatim>\<open>oshu_look_hit_back\<close> with
  offset 2 returns the object at time 2, and \<^verbatim>\<open>oshu_look_hit_up\<close> with offset 2 returns
  the object at time 5.
\<close>

theorem look_hit_timeline:
  assumes "h \<le> 1" and "8 \<le> t" and "c < 7"
  shows "oshu_look_hit_back (example_game (timeline h t) c 4) 2 = Some 2
    \<and> time (timeline h t ! 2) = 2
    \<and> oshu_look_hit_up (example_game (timeline h t) c 4) 2 = Some 4
    \<and> time (timeline h t ! 4) = 5"
  using cursor_cases [OF assms(3)] assms(1,2)
  by (auto simp: oshu_look_hit_back_def oshu_look_hit_up_def example_game_def timeline_def
      circle_at_def sentinel_at_def look_simps)

theorem look_hit_timeline_witness:
  "oshu_look_hit_back (example_game (timeline (-100) 100) 6 4) 2 = Some 2
   \<and> time (timeline (-100) 100 ! 2) = 2
   \<and> oshu_look_hit_up (example_game (timeline (-100) 100) 6 4) 2 = Some 4
   \<and> time (timeline (-100) 100 ! 4) = 5"
  using look_hit_timeline [of "-100" 100 6] by simp

section \<open>Looking around the cursor: any list\<close>

lemma look_back_backward_stops:
  assumes "oshu_hit_end_time (hs ! 0) \<le> target"
  shows "\<exists>j. look_back_backward hs target i = Some j \<and> j \<le> i
           \<and> oshu_hit_end_time (hs ! j) \<le> target
           \<and> (\<forall>k. j < k \<and> k \<le> i \<longrightarrow> target < oshu_hit_end_time (hs ! k))"
proof (induction i)
  case 0
  show ?case
    using assms by (simp add: look_back_backward.simps [of hs target 0])
next
  case (Suc i)
  show ?case
  proof (cases "target < oshu_hit_end_time (hs ! Suc i)")
    case True
    then have step: "look_back_backward hs target (Suc i) = look_back_backward hs target i"
      by (simp add: look_back_backward.simps [of hs target "Suc i"] hit_previous_def)
    from Suc.IH obtain j where j: "look_back_backward hs target i = Some j" "j \<le> i"
      "oshu_hit_end_time (hs ! j) \<le> target"
      "\<forall>k. j < k \<and> k \<le> i \<longrightarrow> target < oshu_hit_end_time (hs ! k)"
      by blast
    have "\<forall>k. j < k \<and> k \<le> Suc i \<longrightarrow> target < oshu_hit_end_time (hs ! k)"
      using j(4) True by (auto simp: le_Suc_eq)
    with j step show ?thesis by auto
  next
    case False
    then show ?thesis
      by (simp add: look_back_backward.simps [of hs target "Suc i"])
  qed
qed

lemma look_back_forward_stops:
  "i < length hs \<Longrightarrow> target \<le> oshu_hit_end_time (last hs) \<Longrightarrow>
     \<exists>j. look_back_forward hs target i = Some j \<and> i \<le> j \<and> j < length hs
        \<and> target \<le> oshu_hit_end_time (hs ! j)
        \<and> (\<forall>k. i \<le> k \<and> k < j \<longrightarrow> oshu_hit_end_time (hs ! k) < target)"
proof (induction hs target i rule: look_back_forward.induct)
  case (1 hs target hit)
  show ?case
  proof (cases "oshu_hit_end_time (hs ! hit) < target")
    case True
    from "1.prems" have "hs \<noteq> []"
      by auto
    then have "last hs = hs ! (length hs - 1)"
      by (rule last_conv_nth)
    with "1.prems" True have "hit \<noteq> length hs - 1"
      by auto
    with "1.prems" have next_hit: "hit_next (length hs) hit = Some (Suc hit)" "Suc hit < length hs"
      by (auto simp: hit_next_def)
    then have step: "look_back_forward hs target hit = look_back_forward hs target (Suc hit)"
      using True by (simp add: look_back_forward.simps [of hs target hit])
    from "1.IH" [OF True next_hit(1) next_hit(2) "1.prems"(2)]
    obtain j where j: "look_back_forward hs target (Suc hit) = Some j" "Suc hit \<le> j"
      "j < length hs" "target \<le> oshu_hit_end_time (hs ! j)"
      "\<forall>k. Suc hit \<le> k \<and> k < j \<longrightarrow> oshu_hit_end_time (hs ! k) < target"
      by blast
    have "\<forall>k. hit \<le> k \<and> k < j \<longrightarrow> oshu_hit_end_time (hs ! k) < target"
    proof (intro allI impI)
      fix k assume k: "hit \<le> k \<and> k < j"
      show "oshu_hit_end_time (hs ! k) < target"
      proof (cases "k = hit")
        case True
        with \<open>oshu_hit_end_time (hs ! hit) < target\<close> show ?thesis by simp
      next
        case False
        with k have "Suc hit \<le> k \<and> k < j" by arith
        with j(5) show ?thesis by blast
      qed
    qed
    with j step show ?thesis by auto
  next
    case False
    with "1.prems" show ?thesis
      by (simp add: look_back_forward.simps [of hs target hit])
  qed
qed

lemma look_up_forward_stops:
  "i < length hs \<Longrightarrow> target \<le> time (last hs) \<Longrightarrow>
     \<exists>j. look_up_forward hs target i = Some j \<and> i \<le> j \<and> j < length hs
        \<and> target \<le> time (hs ! j)
        \<and> (\<forall>k. i \<le> k \<and> k < j \<longrightarrow> time (hs ! k) < target)"
proof (induction hs target i rule: look_up_forward.induct)
  case (1 hs target hit)
  show ?case
  proof (cases "time (hs ! hit) < target")
    case True
    from "1.prems" have "hs \<noteq> []"
      by auto
    then have "last hs = hs ! (length hs - 1)"
      by (rule last_conv_nth)
    with "1.prems" True have "hit \<noteq> length hs - 1"
      by auto
    with "1.prems" have next_hit: "hit_next (length hs) hit = Some (Suc hit)" "Suc hit < length hs"
      by (auto simp: hit_next_def)
    then have step: "look_up_forward hs target hit = look_up_forward hs target (Suc hit)"
      using True by (simp add: look_up_forward.simps [of hs target hit])
    from "1.IH" [OF True next_hit(1) next_hit(2) "1.prems"(2)]
    obtain j where j: "look_up_forward hs target (Suc hit) = Some j" "Suc hit \<le> j"
      "j < length hs" "target \<le> time (hs ! j)"
      "\<forall>k. Suc hit \<le> k \<and> k < j \<longrightarrow> time (hs ! k) < target"
      by blast
    have "\<forall>k. hit \<le> k \<and> k < j \<longrightarrow> time (hs ! k) < target"
    proof (intro allI impI)
      fix k assume k: "hit \<le> k \<and> k < j"
      show "time (hs ! k) < target"
      proof (cases "k = hit")
        case True
        with \<open>time (hs ! hit) < target\<close> show ?thesis by simp
      next
        case False
        with k have "Suc hit \<le> k \<and> k < j" by arith
        with j(5) show ?thesis by blast
      qed
    qed
    with j step show ?thesis by auto
  next
    case False
    with "1.prems" show ?thesis
      by (simp add: look_up_forward.simps [of hs target hit])
  qed
qed

lemma look_up_backward_stops:
  assumes "time (hs ! 0) \<le> target"
  shows "\<exists>j. look_up_backward hs target i = Some j \<and> j \<le> i
           \<and> time (hs ! j) \<le> target
           \<and> (\<forall>k. j < k \<and> k \<le> i \<longrightarrow> target < time (hs ! k))"
proof (induction i)
  case 0
  show ?case
    using assms by (simp add: look_up_backward.simps [of hs target 0])
next
  case (Suc i)
  show ?case
  proof (cases "target < time (hs ! Suc i)")
    case True
    then have step: "look_up_backward hs target (Suc i) = look_up_backward hs target i"
      by (simp add: look_up_backward.simps [of hs target "Suc i"] hit_previous_def)
    from Suc.IH obtain j where j: "look_up_backward hs target i = Some j" "j \<le> i"
      "time (hs ! j) \<le> target"
      "\<forall>k. j < k \<and> k \<le> i \<longrightarrow> target < time (hs ! k)"
      by blast
    have "\<forall>k. j < k \<and> k \<le> Suc i \<longrightarrow> target < time (hs ! k)"
      using j(4) True by (auto simp: le_Suc_eq)
    with j step show ?thesis by auto
  next
    case False
    then show ?thesis
      by (simp add: look_up_backward.simps [of hs target "Suc i"])
  qed
qed

lemma oshu_look_hit_back_walk:
  assumes c: "hit_cursor game < length (hits (beatmap game))"
    and head: "oshu_hit_end_time (hits (beatmap game) ! 0) \<le> now (clock game) - offset"
    and tail: "now (clock game) - offset \<le> oshu_hit_end_time (last (hits (beatmap game)))"
  shows "\<exists>i j. oshu_look_hit_back game offset = Some j
           \<and> i \<le> hit_cursor game \<and> i \<le> j \<and> j < length (hits (beatmap game))
           \<and> oshu_hit_end_time (hits (beatmap game) ! i) \<le> now (clock game) - offset
           \<and> (\<forall>k. i < k \<and> k \<le> hit_cursor game \<longrightarrow>
                 now (clock game) - offset < oshu_hit_end_time (hits (beatmap game) ! k))
           \<and> now (clock game) - offset \<le> oshu_hit_end_time (hits (beatmap game) ! j)
           \<and> (\<forall>k. i \<le> k \<and> k < j \<longrightarrow>
                 oshu_hit_end_time (hits (beatmap game) ! k) < now (clock game) - offset)"
proof -
  define hs where "hs = hits (beatmap game)"
  define target where "target = now (clock game) - offset"
  from head obtain i where i: "look_back_backward hs target (hit_cursor game) = Some i"
    "i \<le> hit_cursor game" "oshu_hit_end_time (hs ! i) \<le> target"
    "\<forall>k. i < k \<and> k \<le> hit_cursor game \<longrightarrow> target < oshu_hit_end_time (hs ! k)"
    using look_back_backward_stops [of hs target "hit_cursor game"]
    unfolding hs_def target_def by blast
  from i(2) c have "i < length hs"
    by (simp add: hs_def)
  with tail obtain j where j: "look_back_forward hs target i = Some j" "i \<le> j" "j < length hs"
    "target \<le> oshu_hit_end_time (hs ! j)"
    "\<forall>k. i \<le> k \<and> k < j \<longrightarrow> oshu_hit_end_time (hs ! k) < target"
    using look_back_forward_stops [of i hs target]
    unfolding hs_def target_def by blast
  have "oshu_look_hit_back game offset = Some j"
    using c i(1) j(1) by (simp add: oshu_look_hit_back_def hs_def target_def)
  with i(2,3,4) j show ?thesis
    unfolding hs_def target_def by blast
qed

lemma oshu_look_hit_up_walk:
  assumes c: "hit_cursor game < length (hits (beatmap game))"
    and head: "time (hits (beatmap game) ! 0) \<le> now (clock game) + offset"
    and tail: "now (clock game) + offset \<le> time (last (hits (beatmap game)))"
  shows "\<exists>i j. oshu_look_hit_up game offset = Some j
           \<and> hit_cursor game \<le> i \<and> j \<le> i \<and> i < length (hits (beatmap game))
           \<and> now (clock game) + offset \<le> time (hits (beatmap game) ! i)
           \<and> (\<forall>k. hit_cursor game \<le> k \<and> k < i \<longrightarrow>
                 time (hits (beatmap game) ! k) < now (clock game) + offset)
           \<and> time (hits (beatmap game) ! j) \<le> now (clock game) + offset
           \<and> (\<forall>k. j < k \<and> k \<le> i \<longrightarrow> now (clock game) + offset < time (hits (beatmap game) ! k))"
proof -
  define hs where "hs = hits (beatmap game)"
  define target where "target = now (clock game) + offset"
  from c tail obtain i where i: "look_up_forward hs target (hit_cursor game) = Some i"
    "hit_cursor game \<le> i" "i < length hs" "target \<le> time (hs ! i)"
    "\<forall>k. hit_cursor game \<le> k \<and> k < i \<longrightarrow> time (hs ! k) < target"
    using look_up_forward_stops [of "hit_cursor game" hs target]
    unfolding hs_def target_def by blast
  from head obtain j where j: "look_up_backward hs target i = Some j" "j \<le> i"
    "time (hs ! j) \<le> target" "\<forall>k. j < k \<and> k \<le> i \<longrightarrow> target < time (hs ! k)"
    using look_up_backward_stops [of hs target i]
    unfolding hs_def target_def by blast
  have "oshu_look_hit_up game offset = Some j"
    using c i(1) j(1) by (simp add: oshu_look_hit_up_def hs_def target_def)
  with i(2,3,4,5) j show ?thesis
    unfolding hs_def target_def by blast
qed

lemma sorted_wrt_map_nth:
  assumes "sorted_wrt P (map f xs)" and "i < j" and "j < length xs"
  shows "P (f (xs ! i)) (f (xs ! j))"
  using sorted_wrt_nth_less [OF assms(1), of i j] assms(2,3) by simp

text \<open>
  What the two walks of \<^verbatim>\<open>oshu_look_hit_back\<close> leave behind, on a list whose nodes have
  the keys \<open>key\<close>: the node \<open>i\<close> where the first walk stopped, the node \<open>j\<close> where the
  second one did.
\<close>

lemma first_from_below:
  fixes key :: "nat \<Rightarrow> real"
  assumes ij: "i \<le> j" and i: "key i \<le> target" and j: "target \<le> key j"
    and between: "\<forall>k. i \<le> k \<and> k < j \<longrightarrow> key k < target"
  shows "key j = target \<or> (0 < j \<and> key (j - 1) < target)"
    and "(\<And>a b. a < b \<Longrightarrow> b \<le> j \<Longrightarrow> key a \<le> key b) \<Longrightarrow> k < j \<Longrightarrow>
           key k < target \<or> (key k = target \<and> key j = target)"
    and "(\<And>a b. a < b \<Longrightarrow> b \<le> j \<Longrightarrow> key a < key b) \<Longrightarrow> k < j \<Longrightarrow> key k < target"
proof -
  show "key j = target \<or> (0 < j \<and> key (j - 1) < target)"
  proof (cases "i = j")
    case True
    with i j show ?thesis by simp
  next
    case False
    with ij have "i \<le> j - 1 \<and> j - 1 < j" "0 < j" by arith+
    with between show ?thesis by blast
  qed
next
  assume mono: "\<And>a b. a < b \<Longrightarrow> b \<le> j \<Longrightarrow> key a \<le> key b" and k: "k < j"
  show "key k < target \<or> (key k = target \<and> key j = target)"
  proof (cases "i \<le> k")
    case True
    with between k show ?thesis by blast
  next
    case False
    then have "k < i" by simp
    with ij have ki: "key k \<le> key i" by (intro mono) simp_all
    show ?thesis
    proof (cases "key k < target")
      case True
      then show ?thesis by simp
    next
      case False
      with ki i have tied: "key k = target" "key i = target" by simp_all
      have "i = j"
      proof (rule ccontr)
        assume "i \<noteq> j"
        with ij between have "key i < target" by simp
        with tied show False by simp
      qed
      with tied show ?thesis by simp
    qed
  qed
next
  assume mono: "\<And>a b. a < b \<Longrightarrow> b \<le> j \<Longrightarrow> key a < key b" and k: "k < j"
  show "key k < target"
  proof (cases "i \<le> k")
    case True
    with between k show ?thesis by blast
  next
    case False
    then have "k < i" by simp
    with ij have "key k < key i" by (intro mono) simp_all
    with i show ?thesis by simp
  qed
qed

lemma last_from_above:
  fixes key :: "nat \<Rightarrow> real"
  assumes ji: "j \<le> i" and i: "target \<le> key i" and j: "key j \<le> target"
    and between: "\<forall>k. j < k \<and> k \<le> i \<longrightarrow> target < key k"
  shows "key j = target \<or> (Suc j \<le> i \<and> target < key (Suc j))"
    and "(\<And>a b. j \<le> a \<Longrightarrow> a < b \<Longrightarrow> b < n \<Longrightarrow> key a \<le> key b) \<Longrightarrow> j < k \<Longrightarrow> k < n \<Longrightarrow>
           target < key k \<or> (key k = target \<and> key j = target)"
    and "(\<And>a b. j \<le> a \<Longrightarrow> a < b \<Longrightarrow> b < n \<Longrightarrow> key a < key b) \<Longrightarrow> j < k \<Longrightarrow> k < n \<Longrightarrow>
           target < key k"
proof -
  show "key j = target \<or> (Suc j \<le> i \<and> target < key (Suc j))"
  proof (cases "i = j")
    case True
    with i j show ?thesis by simp
  next
    case False
    with ji have "j < Suc j \<and> Suc j \<le> i" by arith
    with between show ?thesis by blast
  qed
next
  assume mono: "\<And>a b. j \<le> a \<Longrightarrow> a < b \<Longrightarrow> b < n \<Longrightarrow> key a \<le> key b"
    and k: "j < k" "k < n"
  show "target < key k \<or> (key k = target \<and> key j = target)"
  proof (cases "k \<le> i")
    case True
    with between k show ?thesis by blast
  next
    case False
    then have "i < k" by simp
    with ji k have ik: "key i \<le> key k" by (intro mono) simp_all
    show ?thesis
    proof (cases "target < key k")
      case True
      then show ?thesis by simp
    next
      case False
      with ik i have tied: "key k = target" "key i = target" by simp_all
      have "i = j"
      proof (rule ccontr)
        assume "i \<noteq> j"
        with ji between have "target < key i" by simp
        with tied show False by simp
      qed
      with tied show ?thesis by simp
    qed
  qed
next
  assume mono: "\<And>a b. j \<le> a \<Longrightarrow> a < b \<Longrightarrow> b < n \<Longrightarrow> key a < key b"
    and k: "j < k" "k < n"
  show "target < key k"
  proof (cases "k \<le> i")
    case True
    with between k show ?thesis by blast
  next
    case False
    then have "i < k" by simp
    with ji k have "key i < key k" by (intro mono) simp_all
    with i show ?thesis by simp
  qed
qed

text \<open>
  C4, as stated, fails on a list sorted by time in which two objects share a time.
  With the cursor on the tail, \<^verbatim>\<open>oshu_look_hit_back\<close> returns the second of them,
  although the first one satisfies the bound too; with the cursor on the head,
  \<^verbatim>\<open>oshu_look_hit_up\<close> returns the first of them, although its successor satisfies the
  bound too.
\<close>

theorem look_hit_tied_counterexample:
  "sorted (map time tied_objects)
   \<and> oshu_look_hit_back (example_game tied_objects 3 2) 0 = Some 2
   \<and> now (clock (example_game tied_objects 3 2)) - 0 \<le> oshu_hit_end_time (tied_objects ! 1)
   \<and> \<not> oshu_hit_end_time (tied_objects ! 1) < now (clock (example_game tied_objects 3 2)) - 0
   \<and> oshu_look_hit_up (example_game tied_objects 0 2) 0 = Some 1
   \<and> time (tied_objects ! 2) \<le> now (clock (example_game tied_objects 0 2)) + 0
   \<and> \<not> time (tied_objects ! 2) > now (clock (example_game tied_objects 0 2)) + 0"
  by (simp add: oshu_look_hit_back_def oshu_look_hit_up_def example_game_def tied_objects_def
      circle_at_def sentinel_at_def look_simps)

text \<open>
  Where a slider overlaps the object after it, the list is sorted by time and not by
  end time, and the node \<^verbatim>\<open>oshu_look_hit_back\<close> returns need not be the first one
  that ends at or after the target either: here the slider, before the cursor, does.
\<close>

lemma look_hit_back_overlap:
  "sorted (map time overlapping_objects)
   \<and> oshu_look_hit_back (example_game overlapping_objects 2 3) 0 = Some 3
   \<and> now (clock (example_game overlapping_objects 2 3)) - 0
       \<le> oshu_hit_end_time (overlapping_objects ! 1)"
  by (simp add: oshu_look_hit_back_def example_game_def overlapping_objects_def
      circle_at_def sentinel_at_def slider_at_def look_simps)

text \<open>
  C4, amended. With the cursor in the list and sentinels that bound the target, both
  functions return a node, and which one is fixed by the two walks.

  \<^verbatim>\<open>oshu_look_hit_back\<close> returns the first node \<open>j\<close>, from \<open>i\<close> on, that ends at or after
  \<^verbatim>\<open>now - offset\<close>, where \<open>i\<close> is the nearest node at or before the cursor that ends
  at or before \<^verbatim>\<open>now - offset\<close>. On every list, that node ends exactly at the target
  or its predecessor ends before the target. On a list sorted by end time, every node
  before it ends before the target, except nodes that end exactly at the target when
  the returned node does too; so it is the first node that ends at or after the
  target whenever no earlier node ends exactly at the target, as on every list whose
  end times increase strictly.

  \<^verbatim>\<open>oshu_look_hit_up\<close> returns the last node \<open>j\<close>, from \<open>i\<close> back, whose time is at or
  before \<^verbatim>\<open>now + offset\<close>, where \<open>i\<close> is the nearest node at or after the cursor whose
  time is at or after \<^verbatim>\<open>now + offset\<close>. On every list, that node is exactly at the
  target or its successor is after the target. On a list sorted by time, every node
  after it is after the target, except nodes exactly at the target when the returned
  node is too.
\<close>

theorem look_hit_first:
  assumes c: "hit_cursor game < length (hits (beatmap game))"
    and head_back: "oshu_hit_end_time (hits (beatmap game) ! 0) \<le> now (clock game) - offset"
    and tail_back: "now (clock game) - offset \<le> oshu_hit_end_time (last (hits (beatmap game)))"
    and head_up: "time (hits (beatmap game) ! 0) \<le> now (clock game) + offset'"
    and tail_up: "now (clock game) + offset' \<le> time (last (hits (beatmap game)))"
  shows "(\<exists>i j. oshu_look_hit_back game offset = Some j
            \<and> i \<le> hit_cursor game \<and> i \<le> j \<and> j < length (hits (beatmap game))
            \<and> oshu_hit_end_time (hits (beatmap game) ! i) \<le> now (clock game) - offset
            \<and> (\<forall>k. i < k \<and> k \<le> hit_cursor game \<longrightarrow>
                  now (clock game) - offset < oshu_hit_end_time (hits (beatmap game) ! k))
            \<and> now (clock game) - offset \<le> oshu_hit_end_time (hits (beatmap game) ! j)
            \<and> (\<forall>k. i \<le> k \<and> k < j \<longrightarrow>
                  oshu_hit_end_time (hits (beatmap game) ! k) < now (clock game) - offset)
            \<and> (oshu_hit_end_time (hits (beatmap game) ! j) = now (clock game) - offset
                \<or> (0 < j \<and> oshu_hit_end_time (hits (beatmap game) ! (j - 1))
                               < now (clock game) - offset))
            \<and> (sorted (map oshu_hit_end_time (hits (beatmap game))) \<longrightarrow>
                 (\<forall>k<j. oshu_hit_end_time (hits (beatmap game) ! k) < now (clock game) - offset
                       \<or> (oshu_hit_end_time (hits (beatmap game) ! k) = now (clock game) - offset
                           \<and> oshu_hit_end_time (hits (beatmap game) ! j)
                               = now (clock game) - offset)))
            \<and> (sorted_wrt (<) (map oshu_hit_end_time (hits (beatmap game))) \<longrightarrow>
                 (\<forall>k<j. oshu_hit_end_time (hits (beatmap game) ! k) < now (clock game) - offset)))
       \<and> (\<exists>i j. oshu_look_hit_up game offset' = Some j
            \<and> hit_cursor game \<le> i \<and> j \<le> i \<and> i < length (hits (beatmap game))
            \<and> now (clock game) + offset' \<le> time (hits (beatmap game) ! i)
            \<and> (\<forall>k. hit_cursor game \<le> k \<and> k < i \<longrightarrow>
                  time (hits (beatmap game) ! k) < now (clock game) + offset')
            \<and> time (hits (beatmap game) ! j) \<le> now (clock game) + offset'
            \<and> (\<forall>k. j < k \<and> k \<le> i \<longrightarrow>
                  now (clock game) + offset' < time (hits (beatmap game) ! k))
            \<and> (time (hits (beatmap game) ! j) = now (clock game) + offset'
                \<or> (Suc j < length (hits (beatmap game))
                    \<and> now (clock game) + offset' < time (hits (beatmap game) ! Suc j)))
            \<and> (sorted (map time (hits (beatmap game))) \<longrightarrow>
                 (\<forall>k. j < k \<and> k < length (hits (beatmap game)) \<longrightarrow>
                    now (clock game) + offset' < time (hits (beatmap game) ! k)
                    \<or> (time (hits (beatmap game) ! k) = now (clock game) + offset'
                        \<and> time (hits (beatmap game) ! j) = now (clock game) + offset')))
            \<and> (sorted_wrt (<) (map time (hits (beatmap game))) \<longrightarrow>
                 (\<forall>k. j < k \<and> k < length (hits (beatmap game)) \<longrightarrow>
                    now (clock game) + offset' < time (hits (beatmap game) ! k))))"
proof (rule conjI)
  define hs where "hs = hits (beatmap game)"
  define target where "target = now (clock game) - offset"
  define key where "key k = oshu_hit_end_time (hs ! k)" for k
  from oshu_look_hit_back_walk [OF c head_back tail_back]
  obtain i j where w: "oshu_look_hit_back game offset = Some j"
    "i \<le> hit_cursor game" "i \<le> j" "j < length hs"
    "key i \<le> target" "\<forall>k. i < k \<and> k \<le> hit_cursor game \<longrightarrow> target < key k"
    "target \<le> key j" "\<forall>k. i \<le> k \<and> k < j \<longrightarrow> key k < target"
    unfolding hs_def target_def key_def by blast
  note first = first_from_below [of i j key target, OF w(3) w(5) w(7) w(8)]
  have weak: "key k < target \<or> (key k = target \<and> key j = target)"
    if s: "sorted (map oshu_hit_end_time hs)" and k: "k < j" for k
  proof (rule first(2) [OF _ k])
    fix a b assume "a < b" "b \<le> j"
    with w(4) show "key a \<le> key b"
      using sorted_wrt_map_nth [OF s, of a b] by (simp add: key_def)
  qed
  have strict: "key k < target"
    if s: "sorted_wrt (<) (map oshu_hit_end_time hs)" and k: "k < j" for k
  proof (rule first(3) [OF _ k])
    fix a b assume "a < b" "b \<le> j"
    with w(4) show "key a < key b"
      using sorted_wrt_map_nth [OF s, of a b] by (simp add: key_def)
  qed
  from w first(1) weak strict
  have "oshu_look_hit_back game offset = Some j
      \<and> i \<le> hit_cursor game \<and> i \<le> j \<and> j < length hs
      \<and> key i \<le> target
      \<and> (\<forall>k. i < k \<and> k \<le> hit_cursor game \<longrightarrow> target < key k)
      \<and> target \<le> key j
      \<and> (\<forall>k. i \<le> k \<and> k < j \<longrightarrow> key k < target)
      \<and> (key j = target \<or> (0 < j \<and> key (j - 1) < target))
      \<and> (sorted (map oshu_hit_end_time hs) \<longrightarrow>
           (\<forall>k<j. key k < target \<or> (key k = target \<and> key j = target)))
      \<and> (sorted_wrt (<) (map oshu_hit_end_time hs) \<longrightarrow> (\<forall>k<j. key k < target))"
    by blast
  then show "\<exists>i j. oshu_look_hit_back game offset = Some j
            \<and> i \<le> hit_cursor game \<and> i \<le> j \<and> j < length (hits (beatmap game))
            \<and> oshu_hit_end_time (hits (beatmap game) ! i) \<le> now (clock game) - offset
            \<and> (\<forall>k. i < k \<and> k \<le> hit_cursor game \<longrightarrow>
                  now (clock game) - offset < oshu_hit_end_time (hits (beatmap game) ! k))
            \<and> now (clock game) - offset \<le> oshu_hit_end_time (hits (beatmap game) ! j)
            \<and> (\<forall>k. i \<le> k \<and> k < j \<longrightarrow>
                  oshu_hit_end_time (hits (beatmap game) ! k) < now (clock game) - offset)
            \<and> (oshu_hit_end_time (hits (beatmap game) ! j) = now (clock game) - offset
                \<or> (0 < j \<and> oshu_hit_end_time (hits (beatmap game) ! (j - 1))
                               < now (clock game) - offset))
            \<and> (sorted (map oshu_hit_end_time (hits (beatmap game))) \<longrightarrow>
                 (\<forall>k<j. oshu_hit_end_time (hits (beatmap game) ! k) < now (clock game) - offset
                       \<or> (oshu_hit_end_time (hits (beatmap game) ! k) = now (clock game) - offset
                           \<and> oshu_hit_end_time (hits (beatmap game) ! j)
                               = now (clock game) - offset)))
            \<and> (sorted_wrt (<) (map oshu_hit_end_time (hits (beatmap game))) \<longrightarrow>
                 (\<forall>k<j. oshu_hit_end_time (hits (beatmap game) ! k) < now (clock game) - offset))"
    unfolding hs_def target_def key_def by (intro exI [of _ i] exI [of _ j])
next
  define hs where "hs = hits (beatmap game)"
  define target where "target = now (clock game) + offset'"
  define key where "key k = time (hs ! k)" for k
  from oshu_look_hit_up_walk [OF c head_up tail_up]
  obtain i j where w: "oshu_look_hit_up game offset' = Some j"
    "hit_cursor game \<le> i" "j \<le> i" "i < length hs"
    "target \<le> key i" "\<forall>k. hit_cursor game \<le> k \<and> k < i \<longrightarrow> key k < target"
    "key j \<le> target" "\<forall>k. j < k \<and> k \<le> i \<longrightarrow> target < key k"
    unfolding hs_def target_def key_def by blast
  note last = last_from_above [of j i target key, OF w(3) w(5) w(7) w(8)]
  have weak: "target < key k \<or> (key k = target \<and> key j = target)"
    if s: "sorted (map time hs)" and k: "j < k" "k < length hs" for k
  proof (rule last(2) [OF _ k])
    fix a b assume "j \<le> a" "a < b" "b < length hs"
    then show "key a \<le> key b"
      using sorted_wrt_map_nth [OF s, of a b] by (simp add: key_def)
  qed
  have strict: "target < key k"
    if s: "sorted_wrt (<) (map time hs)" and k: "j < k" "k < length hs" for k
  proof (rule last(3) [OF _ k])
    fix a b assume "j \<le> a" "a < b" "b < length hs"
    then show "key a < key b"
      using sorted_wrt_map_nth [OF s, of a b] by (simp add: key_def)
  qed
  from last(1) w(4) have near: "key j = target \<or> (Suc j < length hs \<and> target < key (Suc j))"
    by auto
  from w near weak strict
  have "oshu_look_hit_up game offset' = Some j
      \<and> hit_cursor game \<le> i \<and> j \<le> i \<and> i < length hs
      \<and> target \<le> key i
      \<and> (\<forall>k. hit_cursor game \<le> k \<and> k < i \<longrightarrow> key k < target)
      \<and> key j \<le> target
      \<and> (\<forall>k. j < k \<and> k \<le> i \<longrightarrow> target < key k)
      \<and> (key j = target \<or> (Suc j < length hs \<and> target < key (Suc j)))
      \<and> (sorted (map time hs) \<longrightarrow>
           (\<forall>k. j < k \<and> k < length hs \<longrightarrow> target < key k \<or> (key k = target \<and> key j = target)))
      \<and> (sorted_wrt (<) (map time hs) \<longrightarrow> (\<forall>k. j < k \<and> k < length hs \<longrightarrow> target < key k))"
    by blast
  then show "\<exists>i j. oshu_look_hit_up game offset' = Some j
            \<and> hit_cursor game \<le> i \<and> j \<le> i \<and> i < length (hits (beatmap game))
            \<and> now (clock game) + offset' \<le> time (hits (beatmap game) ! i)
            \<and> (\<forall>k. hit_cursor game \<le> k \<and> k < i \<longrightarrow>
                  time (hits (beatmap game) ! k) < now (clock game) + offset')
            \<and> time (hits (beatmap game) ! j) \<le> now (clock game) + offset'
            \<and> (\<forall>k. j < k \<and> k \<le> i \<longrightarrow>
                  now (clock game) + offset' < time (hits (beatmap game) ! k))
            \<and> (time (hits (beatmap game) ! j) = now (clock game) + offset'
                \<or> (Suc j < length (hits (beatmap game))
                    \<and> now (clock game) + offset' < time (hits (beatmap game) ! Suc j)))
            \<and> (sorted (map time (hits (beatmap game))) \<longrightarrow>
                 (\<forall>k. j < k \<and> k < length (hits (beatmap game)) \<longrightarrow>
                    now (clock game) + offset' < time (hits (beatmap game) ! k)
                    \<or> (time (hits (beatmap game) ! k) = now (clock game) + offset'
                        \<and> time (hits (beatmap game) ! j) = now (clock game) + offset')))
            \<and> (sorted_wrt (<) (map time (hits (beatmap game))) \<longrightarrow>
                 (\<forall>k. j < k \<and> k < length (hits (beatmap game)) \<longrightarrow>
                    now (clock game) + offset' < time (hits (beatmap game) ! k)))"
    unfolding hs_def target_def key_def by (intro exI [of _ i] exI [of _ j])
qed

text \<open>
  On the timeline 1, 2, 3, 5, 8 the theorem gives what the functions compute. On the
  two objects tied at 2 it leaves no choice: from the tail, \<^verbatim>\<open>oshu_look_hit_back\<close>
  returns the second of them, and from the head, \<^verbatim>\<open>oshu_look_hit_up\<close> the first.
\<close>

theorem look_hit_first_witness:
  "oshu_look_hit_back (example_game (timeline (-100) 100) 5 4) 2 = Some 2
   \<and> oshu_hit_end_time (timeline (-100) 100 ! 0) < 4 - 2
   \<and> oshu_hit_end_time (timeline (-100) 100 ! 1) < 4 - 2
   \<and> oshu_look_hit_up (example_game (timeline (-100) 100) 5 4) 2 = Some 4
   \<and> 4 + 2 < time (timeline (-100) 100 ! 5)
   \<and> 4 + 2 < time (timeline (-100) 100 ! 6)
   \<and> oshu_look_hit_back (example_game tied_objects 3 2) 0 = Some 2
   \<and> oshu_look_hit_up (example_game tied_objects 0 2) 0 = Some 1"
proof -
  let ?game = "example_game (timeline (-100) 100) 5 4"
  have game: "hits (beatmap ?game) = timeline (-100) 100" "now (clock ?game) = 4"
    "hit_cursor ?game = 5"
    by (simp_all add: example_game_def)
  have len: "length (timeline (-100) 100) = 7"
    by (simp add: timeline_def)
  have strict: "sorted_wrt (<) (map oshu_hit_end_time (timeline (-100) 100))"
    "sorted_wrt (<) (map time (timeline (-100) 100))"
    by (simp_all add: timeline_def circle_at_def sentinel_at_def oshu_hit_end_time_def)
  have bounds: "oshu_hit_end_time (timeline (-100) 100 ! 0) \<le> 4 - 2"
    "4 - 2 \<le> oshu_hit_end_time (last (timeline (-100) 100))"
    "time (timeline (-100) 100 ! 0) \<le> 4 + 2"
    "4 + 2 \<le> time (last (timeline (-100) 100))"
    by (simp_all add: timeline_def circle_at_def sentinel_at_def oshu_hit_end_time_def)
  have found: "oshu_look_hit_back ?game 2 = Some 2" "oshu_look_hit_up ?game 2 = Some 4"
    by (simp_all add: oshu_look_hit_back_def oshu_look_hit_up_def example_game_def timeline_def
        circle_at_def sentinel_at_def look_simps)
  from look_hit_first [of ?game 2 2] game len strict bounds found
  have "(\<forall>k<2. oshu_hit_end_time (timeline (-100) 100 ! k) < 4 - 2)
      \<and> (\<forall>k. 4 < k \<and> k < 7 \<longrightarrow> 4 + 2 < time (timeline (-100) 100 ! k))"
    by auto
  then have first: "oshu_hit_end_time (timeline (-100) 100 ! 0) < 4 - 2"
    "oshu_hit_end_time (timeline (-100) 100 ! 1) < 4 - 2"
    "4 + 2 < time (timeline (-100) 100 ! 5)" "4 + 2 < time (timeline (-100) 100 ! 6)"
    by simp_all
  let ?tail = "example_game tied_objects 3 2"
  let ?head = "example_game tied_objects 0 2"
  have keys: "oshu_hit_end_time (tied_objects ! 0) = -100" "oshu_hit_end_time (tied_objects ! 1) = 2"
    "oshu_hit_end_time (tied_objects ! 2) = 2" "oshu_hit_end_time (tied_objects ! 3) = 100"
    "time (tied_objects ! 0) = -100" "time (tied_objects ! 1) = 2"
    "time (tied_objects ! 2) = 2" "time (tied_objects ! 3) = 100"
    "length tied_objects = 4" "last tied_objects = tied_objects ! 3"
    by (simp_all add: tied_objects_def circle_at_def sentinel_at_def oshu_hit_end_time_def)
  have tail: "hits (beatmap ?tail) = tied_objects" "now (clock ?tail) = 2" "hit_cursor ?tail = 3"
    and head: "hits (beatmap ?head) = tied_objects" "now (clock ?head) = 2" "hit_cursor ?head = 0"
    by (simp_all add: example_game_def)
  from look_hit_first [of ?tail 0 0] tail keys
  obtain i j where b: "oshu_look_hit_back ?tail 0 = Some j" "i \<le> 3" "i \<le> j" "j < 4"
    "oshu_hit_end_time (tied_objects ! i) \<le> 2"
    "\<forall>k. i < k \<and> k \<le> 3 \<longrightarrow> 2 < oshu_hit_end_time (tied_objects ! k)"
    "\<forall>k. i \<le> k \<and> k < j \<longrightarrow> oshu_hit_end_time (tied_objects ! k) < 2"
    by auto
  have "i \<noteq> 3"
  proof
    assume "i = 3"
    with b(5) keys(4) show False by simp
  qed
  moreover have "\<not> i < 2"
    using b(6) keys(3) by force
  ultimately have "i = 2"
    using b(2) by arith
  moreover have "\<not> 2 < j"
    using b(7) \<open>i = 2\<close> keys(3) by force
  ultimately have "j = 2"
    using b(3) by arith
  from look_hit_first [of ?head 0 0] head keys
  obtain i' j' where u: "oshu_look_hit_up ?head 0 = Some j'" "j' \<le> i'" "i' < 4"
    "2 \<le> time (tied_objects ! i')"
    "\<forall>k. 0 \<le> k \<and> k < i' \<longrightarrow> time (tied_objects ! k) < 2"
    "time (tied_objects ! j') \<le> 2"
    "\<forall>k. j' < k \<and> k \<le> i' \<longrightarrow> 2 < time (tied_objects ! k)"
    by auto
  have "i' \<noteq> 0"
  proof
    assume "i' = 0"
    with u(4) keys(5) show False by simp
  qed
  moreover have "\<not> 1 < i'"
    using u(5) keys(6) by force
  ultimately have "i' = 1"
    by arith
  moreover have "j' \<noteq> 0"
    using u(7) \<open>i' = 1\<close> keys(6) by force
  ultimately have "j' = 1"
    using u(2) by arith
  from found first b(1) \<open>j = 2\<close> u(1) \<open>j' = 1\<close> show ?thesis
    by simp
qed

section \<open>Rewinding and forwarding\<close>

text \<open>
  The loop of \<^verbatim>\<open>rewind_music\<close> stops on the first node, going back from the cursor,
  whose time is not above \<^verbatim>\<open>now + 1\<close>; the nodes it left are initial again and the
  others are as they were. The loop of \<^verbatim>\<open>forward_music\<close> mirrors it.
\<close>

lemma rewind_walk_stops:
  "c < length hs \<Longrightarrow> time (hs ! 0) \<le> now1 + 1 \<Longrightarrow>
   \<exists>hs' c'. rewind_walk now1 hs c = Some (hs', c') \<and> c' \<le> c \<and> length hs' = length hs
     \<and> time (hs' ! c') \<le> now1 + 1
     \<and> (\<forall>k. c' < k \<and> k \<le> c \<longrightarrow>
           now1 + 1 < time (hs ! k) \<and> hs' ! k = (hs ! k)\<lparr>hstate := OSHU_INITIAL_HIT\<rparr>)
     \<and> (\<forall>k. k < length hs \<and> \<not> (c' < k \<and> k \<le> c) \<longrightarrow> hs' ! k = hs ! k)"
proof (induction c arbitrary: hs)
  case 0
  then show ?case
    by (simp add: rewind_walk.simps [of now1 hs 0])
next
  case (Suc c)
  show ?case
  proof (cases "now1 + 1 < time (hs ! Suc c)")
    case True
    define hs1 where "hs1 = hs[Suc c := (hs ! Suc c)\<lparr>hstate := OSHU_INITIAL_HIT\<rparr>]"
    have step: "rewind_walk now1 hs (Suc c) = rewind_walk now1 hs1 c"
      using True by (simp add: rewind_walk.simps [of now1 hs "Suc c"] hit_previous_def hs1_def)
    have "c < length hs1" "time (hs1 ! 0) \<le> now1 + 1"
      using Suc.prems by (simp_all add: hs1_def)
    from Suc.IH [OF this] obtain hs' c' where r: "rewind_walk now1 hs1 c = Some (hs', c')"
      "c' \<le> c" "length hs' = length hs1" "time (hs' ! c') \<le> now1 + 1"
      "\<forall>k. c' < k \<and> k \<le> c \<longrightarrow>
           now1 + 1 < time (hs1 ! k) \<and> hs' ! k = (hs1 ! k)\<lparr>hstate := OSHU_INITIAL_HIT\<rparr>"
      "\<forall>k. k < length hs1 \<and> \<not> (c' < k \<and> k \<le> c) \<longrightarrow> hs' ! k = hs1 ! k"
      by blast
    have walked: "now1 + 1 < time (hs ! k) \<and> hs' ! k = (hs ! k)\<lparr>hstate := OSHU_INITIAL_HIT\<rparr>"
      if k: "c' < k \<and> k \<le> Suc c" for k
    proof (cases "k = Suc c")
      case True
      with r(2,6) Suc.prems(1) have "hs' ! k = hs1 ! k"
        by (simp add: hs1_def)
      with True \<open>now1 + 1 < time (hs ! Suc c)\<close> Suc.prems(1) show ?thesis
        by (simp add: hs1_def)
    next
      case False
      with k have "c' < k \<and> k \<le> c" by arith
      with r(5) False show ?thesis
        by (simp add: hs1_def)
    qed
    have kept: "hs' ! k = hs ! k" if k: "k < length hs \<and> \<not> (c' < k \<and> k \<le> Suc c)" for k
    proof -
      from k r(2) have "k \<noteq> Suc c" "k < length hs1 \<and> \<not> (c' < k \<and> k \<le> c)"
        by (auto simp: hs1_def)
      with r(6) show ?thesis
        by (simp add: hs1_def)
    qed
    from r(2) have "c' \<le> Suc c" by simp
    moreover from r(3) have "length hs' = length hs" by (simp add: hs1_def)
    ultimately show ?thesis
      using step r(1,4) walked kept by auto
  next
    case False
    then show ?thesis
      by (auto simp: rewind_walk.simps [of now1 hs "Suc c"])
  qed
qed

lemma forward_walk_stops:
  "c < length hs \<Longrightarrow> now1 + 1 \<le> time (last hs) \<Longrightarrow>
   \<exists>hs' c'. forward_walk now1 hs c = Some (hs', c') \<and> c \<le> c' \<and> c' < length hs
     \<and> length hs' = length hs \<and> now1 + 1 \<le> time (hs' ! c')
     \<and> (\<forall>k. c \<le> k \<and> k < c' \<longrightarrow>
           time (hs ! k) < now1 + 1 \<and> hs' ! k = (hs ! k)\<lparr>hstate := OSHU_SKIPPED_HIT\<rparr>)
     \<and> (\<forall>k. k < length hs \<and> \<not> (c \<le> k \<and> k < c') \<longrightarrow> hs' ! k = hs ! k)"
proof (induction now1 hs c rule: forward_walk.induct)
  case (1 now1 hs c)
  show ?case
  proof (cases "time (hs ! c) < now1 + 1")
    case True
    define hs1 where "hs1 = hs[c := (hs ! c)\<lparr>hstate := OSHU_SKIPPED_HIT\<rparr>]"
    from "1.prems" have "hs \<noteq> []"
      by auto
    then have last: "last hs = hs ! (length hs - 1)"
      by (rule last_conv_nth)
    with "1.prems" True have "c \<noteq> length hs - 1"
      by auto
    with "1.prems" have next_hit: "hit_next (length hs) c = Some (Suc c)" and suc: "Suc c < length hs"
      by (auto simp: hit_next_def)
    have step: "forward_walk now1 hs c = forward_walk now1 hs1 (Suc c)"
      using True next_hit by (simp add: forward_walk.simps [of now1 hs c] hs1_def)
    have "last hs1 = last hs"
      using suc \<open>hs \<noteq> []\<close> by (simp add: hs1_def last_conv_nth)
    with "1.prems" suc have "Suc c < length hs1" "now1 + 1 \<le> time (last hs1)"
      by (simp_all add: hs1_def)
    from "1.IH" [OF True next_hit, folded hs1_def, OF this]
    obtain hs' c' where r: "forward_walk now1 hs1 (Suc c) = Some (hs', c')"
      "Suc c \<le> c'" "c' < length hs1" "length hs' = length hs1" "now1 + 1 \<le> time (hs' ! c')"
      "\<forall>k. Suc c \<le> k \<and> k < c' \<longrightarrow>
           time (hs1 ! k) < now1 + 1 \<and> hs' ! k = (hs1 ! k)\<lparr>hstate := OSHU_SKIPPED_HIT\<rparr>"
      "\<forall>k. k < length hs1 \<and> \<not> (Suc c \<le> k \<and> k < c') \<longrightarrow> hs' ! k = hs1 ! k"
      by blast
    have walked: "time (hs ! k) < now1 + 1 \<and> hs' ! k = (hs ! k)\<lparr>hstate := OSHU_SKIPPED_HIT\<rparr>"
      if k: "c \<le> k \<and> k < c'" for k
    proof (cases "k = c")
      case True
      with r(7) "1.prems"(1) have "hs' ! k = hs1 ! k"
        by (simp add: hs1_def)
      with True \<open>time (hs ! c) < now1 + 1\<close> "1.prems"(1) show ?thesis
        by (simp add: hs1_def)
    next
      case False
      with k have "Suc c \<le> k \<and> k < c'" by arith
      with r(6) False show ?thesis
        by (simp add: hs1_def)
    qed
    have kept: "hs' ! k = hs ! k" if k: "k < length hs \<and> \<not> (c \<le> k \<and> k < c')" for k
    proof -
      from k r(2) have "k \<noteq> c" "k < length hs1 \<and> \<not> (Suc c \<le> k \<and> k < c')"
        by (auto simp: hs1_def)
      with r(7) show ?thesis
        by (simp add: hs1_def)
    qed
    from r(2) have "c \<le> c'" by simp
    moreover from r(3,4) have "c' < length hs" "length hs' = length hs" by (simp_all add: hs1_def)
    ultimately show ?thesis
      using step r(1,5) walked kept by auto
  next
    case False
    with "1.prems" show ?thesis
      by (auto simp: forward_walk.simps [of now1 hs c])
  qed
qed

lemmas seek_simps =
  rewind_music_def rewind_music_seek_def forward_music_def forward_music_seek_def
  oshu_seek_music_def call_relinquish_def oshu_play_audio_def walk_cursor_def
  rewind_walk.simps forward_walk.simps hit_previous_def hit_next_def

lemmas example_simps =
  example_game_def example_externals_def played_timeline_def timeline_def circle_at_def
  sentinel_at_def

text \<open>
  C6, as stated, fails: a node that is not walked need not keep its state. Both
  functions call \<^verbatim>\<open>relinquish\<close> before they walk, and a game mode that releases the
  slider being held changes its state. Here the slider at 3 is held, the song is at
  3.5 and the cursor on the slider; rewinding by one second, as \<^verbatim>\<open>unpause_game\<close> does,
  walks over no node at all, and the slider is initial afterwards.
\<close>

theorem rewind_music_relinquish_counterexample:
  "hit_cursor (example_game held_timeline 3 3.5) = 3
   \<and> map hstate held_timeline
       = [OSHU_INITIAL_HIT, OSHU_GOOD_HIT, OSHU_GOOD_HIT, OSHU_SLIDING_HIT,
          OSHU_INITIAL_HIT, OSHU_INITIAL_HIT]
   \<and> map_option hit_cursor
       (rewind_music example_externals (example_game held_timeline 3 3.5) 1) = Some 3
   \<and> map_option (map hstate \<circ> hits \<circ> beatmap)
       (rewind_music example_externals (example_game held_timeline 3 3.5) 1)
       = Some [OSHU_INITIAL_HIT, OSHU_GOOD_HIT, OSHU_GOOD_HIT, OSHU_INITIAL_HIT,
               OSHU_INITIAL_HIT, OSHU_INITIAL_HIT]"
  by (simp add: seek_simps example_simps held_timeline_def slider_at_def)

text \<open>The two walks, from the game each of them starts on.\<close>

lemma seek_walks_loops:
  fixes x :: externals and game :: oshu_game and offset_rewind offset_forward :: real
  defines "rewound \<equiv> rewind_music_seek x game offset_rewind"
    and "forwarded \<equiv> forward_music_seek x game offset_forward"
  assumes rewound_cursor: "hit_cursor rewound < length (hits (beatmap rewound))"
    and rewound_head: "time (hits (beatmap rewound) ! 0) \<le> now (clock rewound) + 1"
    and forwarded_cursor: "hit_cursor forwarded < length (hits (beatmap forwarded))"
    and forwarded_tail: "now (clock forwarded) + 1 \<le> time (last (hits (beatmap forwarded)))"
  shows "(\<exists>hs' c'.
            rewind_music x game offset_rewind
              = Some (rewound\<lparr>beatmap := (beatmap rewound)\<lparr>hits := hs'\<rparr>, hit_cursor := c'\<rparr>)
          \<and> c' \<le> hit_cursor rewound
          \<and> length hs' = length (hits (beatmap rewound))
          \<and> time (hs' ! c') \<le> now (clock rewound) + 1
          \<and> (\<forall>k. c' < k \<and> k \<le> hit_cursor rewound \<longrightarrow>
                now (clock rewound) + 1 < time (hits (beatmap rewound) ! k)
                \<and> hs' ! k = (hits (beatmap rewound) ! k)\<lparr>hstate := OSHU_INITIAL_HIT\<rparr>)
          \<and> (\<forall>k. k < length (hits (beatmap rewound)) \<and> \<not> (c' < k \<and> k \<le> hit_cursor rewound)
                \<longrightarrow> hs' ! k = hits (beatmap rewound) ! k))
       \<and> (\<exists>hs' c'.
            forward_music x game offset_forward
              = Some (forwarded\<lparr>beatmap := (beatmap forwarded)\<lparr>hits := hs'\<rparr>, hit_cursor := c'\<rparr>)
          \<and> hit_cursor forwarded \<le> c'
          \<and> c' < length (hits (beatmap forwarded))
          \<and> length hs' = length (hits (beatmap forwarded))
          \<and> now (clock forwarded) + 1 \<le> time (hs' ! c')
          \<and> (\<forall>k. hit_cursor forwarded \<le> k \<and> k < c' \<longrightarrow>
                time (hits (beatmap forwarded) ! k) < now (clock forwarded) + 1
                \<and> hs' ! k = (hits (beatmap forwarded) ! k)\<lparr>hstate := OSHU_SKIPPED_HIT\<rparr>)
          \<and> (\<forall>k. k < length (hits (beatmap forwarded))
                    \<and> \<not> (hit_cursor forwarded \<le> k \<and> k < c')
                \<longrightarrow> hs' ! k = hits (beatmap forwarded) ! k))"
proof (rule conjI)
  from rewind_walk_stops [OF rewound_cursor rewound_head]
  obtain hs' c' where w:
    "rewind_walk (now (clock rewound)) (hits (beatmap rewound)) (hit_cursor rewound) = Some (hs', c')"
    "c' \<le> hit_cursor rewound" "length hs' = length (hits (beatmap rewound))"
    "time (hs' ! c') \<le> now (clock rewound) + 1"
    "\<forall>k. c' < k \<and> k \<le> hit_cursor rewound \<longrightarrow>
         now (clock rewound) + 1 < time (hits (beatmap rewound) ! k)
         \<and> hs' ! k = (hits (beatmap rewound) ! k)\<lparr>hstate := OSHU_INITIAL_HIT\<rparr>"
    "\<forall>k. k < length (hits (beatmap rewound)) \<and> \<not> (c' < k \<and> k \<le> hit_cursor rewound)
         \<longrightarrow> hs' ! k = hits (beatmap rewound) ! k"
    by blast
  have "rewind_music x game offset_rewind
          = Some (rewound\<lparr>beatmap := (beatmap rewound)\<lparr>hits := hs'\<rparr>, hit_cursor := c'\<rparr>)"
    using rewound_cursor w(1)
    by (simp add: rewind_music_def walk_cursor_def rewound_def [symmetric] Let_def)
  with w(2-6) show "\<exists>hs' c'.
            rewind_music x game offset_rewind
              = Some (rewound\<lparr>beatmap := (beatmap rewound)\<lparr>hits := hs'\<rparr>, hit_cursor := c'\<rparr>)
          \<and> c' \<le> hit_cursor rewound
          \<and> length hs' = length (hits (beatmap rewound))
          \<and> time (hs' ! c') \<le> now (clock rewound) + 1
          \<and> (\<forall>k. c' < k \<and> k \<le> hit_cursor rewound \<longrightarrow>
                now (clock rewound) + 1 < time (hits (beatmap rewound) ! k)
                \<and> hs' ! k = (hits (beatmap rewound) ! k)\<lparr>hstate := OSHU_INITIAL_HIT\<rparr>)
          \<and> (\<forall>k. k < length (hits (beatmap rewound)) \<and> \<not> (c' < k \<and> k \<le> hit_cursor rewound)
                \<longrightarrow> hs' ! k = hits (beatmap rewound) ! k)"
    by blast
next
  from forward_walk_stops [OF forwarded_cursor forwarded_tail]
  obtain hs' c' where w:
    "forward_walk (now (clock forwarded)) (hits (beatmap forwarded)) (hit_cursor forwarded)
       = Some (hs', c')"
    "hit_cursor forwarded \<le> c'" "c' < length (hits (beatmap forwarded))"
    "length hs' = length (hits (beatmap forwarded))"
    "now (clock forwarded) + 1 \<le> time (hs' ! c')"
    "\<forall>k. hit_cursor forwarded \<le> k \<and> k < c' \<longrightarrow>
         time (hits (beatmap forwarded) ! k) < now (clock forwarded) + 1
         \<and> hs' ! k = (hits (beatmap forwarded) ! k)\<lparr>hstate := OSHU_SKIPPED_HIT\<rparr>"
    "\<forall>k. k < length (hits (beatmap forwarded)) \<and> \<not> (hit_cursor forwarded \<le> k \<and> k < c')
         \<longrightarrow> hs' ! k = hits (beatmap forwarded) ! k"
    by blast
  have "forward_music x game offset_forward
          = Some (forwarded\<lparr>beatmap := (beatmap forwarded)\<lparr>hits := hs'\<rparr>, hit_cursor := c'\<rparr>)"
    using forwarded_cursor w(1)
    by (simp add: forward_music_def walk_cursor_def forwarded_def [symmetric] Let_def)
  with w(2-7) show "\<exists>hs' c'.
            forward_music x game offset_forward
              = Some (forwarded\<lparr>beatmap := (beatmap forwarded)\<lparr>hits := hs'\<rparr>, hit_cursor := c'\<rparr>)
          \<and> hit_cursor forwarded \<le> c'
          \<and> c' < length (hits (beatmap forwarded))
          \<and> length hs' = length (hits (beatmap forwarded))
          \<and> now (clock forwarded) + 1 \<le> time (hs' ! c')
          \<and> (\<forall>k. hit_cursor forwarded \<le> k \<and> k < c' \<longrightarrow>
                time (hits (beatmap forwarded) ! k) < now (clock forwarded) + 1
                \<and> hs' ! k = (hits (beatmap forwarded) ! k)\<lparr>hstate := OSHU_SKIPPED_HIT\<rparr>)
          \<and> (\<forall>k. k < length (hits (beatmap forwarded))
                    \<and> \<not> (hit_cursor forwarded \<le> k \<and> k < c')
                \<longrightarrow> hs' ! k = hits (beatmap forwarded) ! k)"
    by blast
qed

text \<open>The game each walk starts on, in terms of the game the function is called on.\<close>

lemma rewind_music_seek_released:
  "hits (beatmap (rewind_music_seek x game offset))
     = hits (beatmap (mode_relinquish x
         (game\<lparr>game_audio := (game_audio game)\<lparr>current_timestamp :=
                   seek_stream x (current_timestamp (game_audio game) - offset)\<rparr>,
                clock := (clock game)\<lparr>now :=
                   seek_stream x (current_timestamp (game_audio game) - offset)\<rparr>\<rparr>)))"
  "hit_cursor (rewind_music_seek x game offset)
     = hit_cursor (mode_relinquish x
         (game\<lparr>game_audio := (game_audio game)\<lparr>current_timestamp :=
                   seek_stream x (current_timestamp (game_audio game) - offset)\<rparr>,
                clock := (clock game)\<lparr>now :=
                   seek_stream x (current_timestamp (game_audio game) - offset)\<rparr>\<rparr>))"
  "clock (rewind_music_seek x game offset)
     = clock (mode_relinquish x
         (game\<lparr>game_audio := (game_audio game)\<lparr>current_timestamp :=
                   seek_stream x (current_timestamp (game_audio game) - offset)\<rparr>,
                clock := (clock game)\<lparr>now :=
                   seek_stream x (current_timestamp (game_audio game) - offset)\<rparr>\<rparr>))"
  by (simp_all add: rewind_music_seek_def oshu_seek_music_def call_relinquish_def Let_def)

lemma forward_music_seek_released:
  "hits (beatmap (forward_music_seek x game offset))
     = hits (beatmap (mode_relinquish x
         (game\<lparr>game_audio := (game_audio game)\<lparr>current_timestamp :=
                   seek_stream x (current_timestamp (game_audio game) + offset)\<rparr>,
                clock := (clock game)\<lparr>now :=
                   seek_stream x (current_timestamp (game_audio game) + offset)\<rparr>\<rparr>)))"
  "hit_cursor (forward_music_seek x game offset)
     = hit_cursor (mode_relinquish x
         (game\<lparr>game_audio := (game_audio game)\<lparr>current_timestamp :=
                   seek_stream x (current_timestamp (game_audio game) + offset)\<rparr>,
                clock := (clock game)\<lparr>now :=
                   seek_stream x (current_timestamp (game_audio game) + offset)\<rparr>\<rparr>))"
  "clock (forward_music_seek x game offset)
     = clock (mode_relinquish x
         (game\<lparr>game_audio := (game_audio game)\<lparr>current_timestamp :=
                   seek_stream x (current_timestamp (game_audio game) + offset)\<rparr>,
                clock := (clock game)\<lparr>now :=
                   seek_stream x (current_timestamp (game_audio game) + offset)\<rparr>\<rparr>))"
  by (simp_all add: forward_music_seek_def oshu_seek_music_def call_relinquish_def
      oshu_play_audio_def Let_def)

text \<open>
  C6, amended. Let \<open>released\<close> be the game the walk starts on: the game \<^verbatim>\<open>relinquish\<close>
  returns when it is called on the game with the stream position and \<^verbatim>\<open>clock.now\<close>
  set by the seek. Let \<open>now\<close> be its clock value and let the head sentinel be at or
  before \<^verbatim>\<open>now + 1\<close>. Then \<^verbatim>\<open>rewind_music\<close> returns; the cursor has moved back to the
  nearest node whose time is at most \<^verbatim>\<open>now + 1\<close>; every node it walked over has a time
  above \<^verbatim>\<open>now + 1\<close> and is initial; every other node is as \<^verbatim>\<open>relinquish\<close> left it, and
  so is the rest of the game. Likewise, with the tail sentinel at or after
  \<^verbatim>\<open>now + 1\<close>, \<^verbatim>\<open>forward_music\<close> returns; the cursor has moved forward to the first node
  whose time is at least \<^verbatim>\<open>now + 1\<close>; every node it walked over has a time below
  \<^verbatim>\<open>now + 1\<close> and is skipped; every other node is as \<^verbatim>\<open>relinquish\<close> left it. When
  \<^verbatim>\<open>relinquish\<close> leaves the nodes, the cursor and the clock alone, these are the nodes
  and the cursor of the game the function was called on, and \<open>now\<close> is the position the
  seek reports.
\<close>

theorem seek_walks:
  fixes x :: externals and game :: oshu_game and offset_rewind offset_forward :: real
  defines "rewound \<equiv> rewind_music_seek x game offset_rewind"
    and "forwarded \<equiv> forward_music_seek x game offset_forward"
    and "released_back \<equiv> mode_relinquish x
         (game\<lparr>game_audio := (game_audio game)\<lparr>current_timestamp :=
                   seek_stream x (current_timestamp (game_audio game) - offset_rewind)\<rparr>,
                clock := (clock game)\<lparr>now :=
                   seek_stream x (current_timestamp (game_audio game) - offset_rewind)\<rparr>\<rparr>)"
    and "released_forth \<equiv> mode_relinquish x
         (game\<lparr>game_audio := (game_audio game)\<lparr>current_timestamp :=
                   seek_stream x (current_timestamp (game_audio game) + offset_forward)\<rparr>,
                clock := (clock game)\<lparr>now :=
                   seek_stream x (current_timestamp (game_audio game) + offset_forward)\<rparr>\<rparr>)"
  assumes rewound_cursor: "hit_cursor rewound < length (hits (beatmap rewound))"
    and rewound_head: "time (hits (beatmap rewound) ! 0) \<le> now (clock rewound) + 1"
    and forwarded_cursor: "hit_cursor forwarded < length (hits (beatmap forwarded))"
    and forwarded_tail: "now (clock forwarded) + 1 \<le> time (last (hits (beatmap forwarded)))"
  shows "((\<exists>hs' c'.
            rewind_music x game offset_rewind
              = Some (rewound\<lparr>beatmap := (beatmap rewound)\<lparr>hits := hs'\<rparr>, hit_cursor := c'\<rparr>)
          \<and> c' \<le> hit_cursor rewound
          \<and> length hs' = length (hits (beatmap rewound))
          \<and> time (hs' ! c') \<le> now (clock rewound) + 1
          \<and> (\<forall>k. c' < k \<and> k \<le> hit_cursor rewound \<longrightarrow>
                now (clock rewound) + 1 < time (hits (beatmap rewound) ! k)
                \<and> hs' ! k = (hits (beatmap rewound) ! k)\<lparr>hstate := OSHU_INITIAL_HIT\<rparr>)
          \<and> (\<forall>k. k < length (hits (beatmap rewound)) \<and> \<not> (c' < k \<and> k \<le> hit_cursor rewound)
                \<longrightarrow> hs' ! k = hits (beatmap rewound) ! k))
       \<and> (\<exists>hs' c'.
            forward_music x game offset_forward
              = Some (forwarded\<lparr>beatmap := (beatmap forwarded)\<lparr>hits := hs'\<rparr>, hit_cursor := c'\<rparr>)
          \<and> hit_cursor forwarded \<le> c'
          \<and> c' < length (hits (beatmap forwarded))
          \<and> length hs' = length (hits (beatmap forwarded))
          \<and> now (clock forwarded) + 1 \<le> time (hs' ! c')
          \<and> (\<forall>k. hit_cursor forwarded \<le> k \<and> k < c' \<longrightarrow>
                time (hits (beatmap forwarded) ! k) < now (clock forwarded) + 1
                \<and> hs' ! k = (hits (beatmap forwarded) ! k)\<lparr>hstate := OSHU_SKIPPED_HIT\<rparr>)
          \<and> (\<forall>k. k < length (hits (beatmap forwarded))
                    \<and> \<not> (hit_cursor forwarded \<le> k \<and> k < c')
                \<longrightarrow> hs' ! k = hits (beatmap forwarded) ! k)))
       \<and> hits (beatmap rewound) = hits (beatmap released_back)
       \<and> hit_cursor rewound = hit_cursor released_back
       \<and> clock rewound = clock released_back
       \<and> hits (beatmap forwarded) = hits (beatmap released_forth)
       \<and> hit_cursor forwarded = hit_cursor released_forth
       \<and> clock forwarded = clock released_forth
       \<and> (hits (beatmap released_back) = hits (beatmap game)
            \<and> hit_cursor released_back = hit_cursor game
            \<and> now (clock released_back)
                = seek_stream x (current_timestamp (game_audio game) - offset_rewind)
          \<longrightarrow> hits (beatmap rewound) = hits (beatmap game)
              \<and> hit_cursor rewound = hit_cursor game
              \<and> now (clock rewound)
                  = seek_stream x (current_timestamp (game_audio game) - offset_rewind))
       \<and> (hits (beatmap released_forth) = hits (beatmap game)
            \<and> hit_cursor released_forth = hit_cursor game
            \<and> now (clock released_forth)
                = seek_stream x (current_timestamp (game_audio game) + offset_forward)
          \<longrightarrow> hits (beatmap forwarded) = hits (beatmap game)
              \<and> hit_cursor forwarded = hit_cursor game
              \<and> now (clock forwarded)
                  = seek_stream x (current_timestamp (game_audio game) + offset_forward))"
proof -
  note loops = seek_walks_loops [of x game offset_rewind offset_forward,
      folded rewound_def forwarded_def,
      OF rewound_cursor rewound_head forwarded_cursor forwarded_tail]
  have links_rewound: "hits (beatmap rewound) = hits (beatmap released_back)"
    "hit_cursor rewound = hit_cursor released_back" "clock rewound = clock released_back"
    unfolding rewound_def released_back_def by (rule rewind_music_seek_released)+
  have links_forwarded: "hits (beatmap forwarded) = hits (beatmap released_forth)"
    "hit_cursor forwarded = hit_cursor released_forth" "clock forwarded = clock released_forth"
    unfolding forwarded_def released_forth_def by (rule forward_music_seek_released)+
  show ?thesis
    by (intro conjI impI) (use loops links_rewound links_forwarded in \<open>simp_all only:\<close>)
qed

text \<open>
  On the timeline in the middle of a game, where nothing is held, with the cursor on
  the object at 8 and the song at 5.5: rewinding by 2 resets the objects at 8 and 5
  and stops on the object at 3; forwarding by 2 skips the object at 8 and stops on the
  tail sentinel; the other objects keep the state they had.
\<close>

theorem seek_walks_witness:
  "map_option hit_cursor (rewind_music example_externals (example_game played_timeline 5 5.5) 2)
     = Some 3
   \<and> map_option (\<lambda>game. map hstate (hits (beatmap game)))
       (rewind_music example_externals (example_game played_timeline 5 5.5) 2)
     = Some [OSHU_INITIAL_HIT, OSHU_GOOD_HIT, OSHU_GOOD_HIT, OSHU_MISSED_HIT,
             OSHU_INITIAL_HIT, OSHU_INITIAL_HIT, OSHU_INITIAL_HIT]
   \<and> map_option hit_cursor (forward_music example_externals (example_game played_timeline 5 5.5) 2)
     = Some 6
   \<and> map_option (\<lambda>game. map hstate (hits (beatmap game)))
       (forward_music example_externals (example_game played_timeline 5 5.5) 2)
     = Some [OSHU_INITIAL_HIT, OSHU_GOOD_HIT, OSHU_GOOD_HIT, OSHU_MISSED_HIT,
             OSHU_GOOD_HIT, OSHU_SKIPPED_HIT, OSHU_INITIAL_HIT]"
proof -
  let ?game = "example_game played_timeline 5 5.5"
  let ?rewound = "rewind_music_seek example_externals ?game 2"
  let ?forwarded = "forward_music_seek example_externals ?game 2"
  have rewound: "hit_cursor ?rewound = 5" "now (clock ?rewound) = 3.5"
    "hits (beatmap ?rewound) = played_timeline"
    by (simp_all add: seek_simps example_simps)
  have forwarded: "hit_cursor ?forwarded = 5" "now (clock ?forwarded) = 7.5"
    "hits (beatmap ?forwarded) = played_timeline"
    by (simp_all add: seek_simps example_simps flag_simps)
  have nodes: "length played_timeline = 7" "time (played_timeline ! 0) = -100"
    "time (last played_timeline) = 100"
    by (simp_all add: example_simps)
  have cursors:
    "map_option hit_cursor (rewind_music example_externals ?game 2) = Some 3"
    "map_option hit_cursor (forward_music example_externals ?game 2) = Some 6"
    by (simp_all add: seek_simps example_simps flag_simps)
  have "hit_cursor ?rewound < length (hits (beatmap ?rewound))"
    "time (hits (beatmap ?rewound) ! 0) \<le> now (clock ?rewound) + 1"
    "hit_cursor ?forwarded < length (hits (beatmap ?forwarded))"
    "now (clock ?forwarded) + 1 \<le> time (last (hits (beatmap ?forwarded)))"
    using rewound forwarded nodes by simp_all
  note walked = seek_walks [of example_externals ?game 2 2, OF this]
  from walked [THEN conjunct1, THEN conjunct1] rewound nodes
  obtain hs' c' where walk_back:
    "rewind_music example_externals ?game 2
       = Some (?rewound\<lparr>beatmap := (beatmap ?rewound)\<lparr>hits := hs'\<rparr>, hit_cursor := c'\<rparr>)"
    "length hs' = 7"
    "\<forall>k. c' < k \<and> k \<le> 5 \<longrightarrow> hs' ! k = (played_timeline ! k)\<lparr>hstate := OSHU_INITIAL_HIT\<rparr>"
    "\<forall>k. k < 7 \<and> \<not> (c' < k \<and> k \<le> 5) \<longrightarrow> hs' ! k = played_timeline ! k"
    by auto
  from walked [THEN conjunct1, THEN conjunct2] forwarded nodes
  obtain hs'' c'' where walk_forth:
    "forward_music example_externals ?game 2
       = Some (?forwarded\<lparr>beatmap := (beatmap ?forwarded)\<lparr>hits := hs''\<rparr>, hit_cursor := c''\<rparr>)"
    "length hs'' = 7"
    "\<forall>k. 5 \<le> k \<and> k < c'' \<longrightarrow> hs'' ! k = (played_timeline ! k)\<lparr>hstate := OSHU_SKIPPED_HIT\<rparr>"
    "\<forall>k. k < 7 \<and> \<not> (5 \<le> k \<and> k < c'') \<longrightarrow> hs'' ! k = played_timeline ! k"
    by auto
  note walks = walk_back walk_forth
  from walks(1,5) cursors have c: "c' = 3" "c'' = 6"
    by simp_all
  have "map hstate hs' = [OSHU_INITIAL_HIT, OSHU_GOOD_HIT, OSHU_GOOD_HIT, OSHU_MISSED_HIT,
             OSHU_INITIAL_HIT, OSHU_INITIAL_HIT, OSHU_INITIAL_HIT]"
    using walks(2,3,4) c(1)
    by (simp add: list_eq_iff_nth_eq less_Suc_eq example_simps numeral_nat)
  moreover have "map hstate hs'' = [OSHU_INITIAL_HIT, OSHU_GOOD_HIT, OSHU_GOOD_HIT, OSHU_MISSED_HIT,
             OSHU_GOOD_HIT, OSHU_SKIPPED_HIT, OSHU_INITIAL_HIT]"
    using walks(6,7,8) c(2)
    by (simp add: list_eq_iff_nth_eq less_Suc_eq example_simps numeral_nat)
  ultimately show ?thesis
    using walks(1,5) c by simp
qed

section \<open>Rewinding, then forwarding\<close>

text \<open>
  C7, as stated, fails. On the timeline 1, 2, 3, 5, 8 with the cursor on the object at
  5 and the song at 4.5, rewinding by 2 and forwarding by 2 brings the clock back to
  4.5, and leaves the cursor on the object at 8: forwarding skips every object less
  than one second ahead.
\<close>

theorem rewind_then_forward_counterexample:
  "hit_cursor (example_game (timeline (-100) 100) 4 4.5) = 4
   \<and> now (clock (example_game (timeline (-100) 100) 4 4.5)) = 4.5
   \<and> map_option hit_cursor
       (rewind_then_forward example_externals (example_game (timeline (-100) 100) 4 4.5) 2)
     = Some 5
   \<and> map_option (now \<circ> clock)
       (rewind_then_forward example_externals (example_game (timeline (-100) 100) 4 4.5) 2)
     = Some 4.5"
  by (simp add: rewind_then_forward_def seek_simps example_simps flag_simps)

text \<open>The loops change no time, and the calls around them keep what the theorem needs.\<close>

lemma map_time_nth:
  "map time hs' = map time hs \<Longrightarrow> k < length hs \<Longrightarrow> time (hs' ! k) = time (hs ! k)"
  by (metis length_map nth_map)

lemma walked_times:
  assumes "length hs' = length hs"
    and "\<forall>k. P k \<longrightarrow> Q k \<and> hs' ! k = (hs ! k)\<lparr>hstate := s\<rparr>"
    and "\<forall>k. k < length hs \<and> \<not> P k \<longrightarrow> hs' ! k = hs ! k"
  shows "map time hs' = map time hs"
proof (rule nth_equalityI)
  show "length (map time hs') = length (map time hs)"
    using assms(1) by simp
next
  fix k assume "k < length (map time hs')"
  then have k: "k < length hs" "k < length hs'"
    using assms(1) by simp_all
  have "time (hs' ! k) = time (hs ! k)"
  proof (cases "P k")
    case True
    with assms(2) have "hs' ! k = (hs ! k)\<lparr>hstate := s\<rparr>" by blast
    then show ?thesis by simp
  next
    case False
    with assms(3) k show ?thesis by simp
  qed
  with k show "map time hs' ! k = map time hs ! k"
    by simp
qed

lemma rewind_music_times:
  assumes c: "hit_cursor (rewind_music_seek x game offset)
                < length (hits (beatmap (rewind_music_seek x game offset)))"
    and head: "time (hits (beatmap (rewind_music_seek x game offset)) ! 0)
                \<le> now (clock (rewind_music_seek x game offset)) + 1"
  shows "\<exists>game'. rewind_music x game offset = Some game'
           \<and> clock game' = clock (rewind_music_seek x game offset)
           \<and> game_audio game' = game_audio (rewind_music_seek x game offset)
           \<and> state game' = state (rewind_music_seek x game offset)
           \<and> mode_calls game' = mode_calls (rewind_music_seek x game offset)
           \<and> map time (hits (beatmap game'))
               = map time (hits (beatmap (rewind_music_seek x game offset)))
           \<and> hit_cursor game' \<le> hit_cursor (rewind_music_seek x game offset)
           \<and> time (hits (beatmap game') ! hit_cursor game')
               \<le> now (clock (rewind_music_seek x game offset)) + 1"
proof -
  define g where "g = rewind_music_seek x game offset"
  from rewind_walk_stops [OF c head, folded g_def]
  obtain hs' c' where w:
    "rewind_walk (now (clock g)) (hits (beatmap g)) (hit_cursor g) = Some (hs', c')"
    "c' \<le> hit_cursor g" "length hs' = length (hits (beatmap g))"
    "time (hs' ! c') \<le> now (clock g) + 1"
    "\<forall>k. c' < k \<and> k \<le> hit_cursor g \<longrightarrow>
         now (clock g) + 1 < time (hits (beatmap g) ! k)
         \<and> hs' ! k = (hits (beatmap g) ! k)\<lparr>hstate := OSHU_INITIAL_HIT\<rparr>"
    "\<forall>k. k < length (hits (beatmap g)) \<and> \<not> (c' < k \<and> k \<le> hit_cursor g)
         \<longrightarrow> hs' ! k = hits (beatmap g) ! k"
    by blast
  have times: "map time hs' = map time (hits (beatmap g))"
    using walked_times [OF w(3) w(5) w(6)] .
  have "rewind_music x game offset
          = Some (g\<lparr>beatmap := (beatmap g)\<lparr>hits := hs'\<rparr>, hit_cursor := c'\<rparr>)"
    using c w(1) by (simp add: rewind_music_def walk_cursor_def g_def [symmetric] Let_def)
  with w(2,4) times show ?thesis
    unfolding g_def [symmetric] by simp
qed

lemma forward_music_times:
  assumes c: "hit_cursor (forward_music_seek x game offset)
                < length (hits (beatmap (forward_music_seek x game offset)))"
    and tail: "now (clock (forward_music_seek x game offset)) + 1
                \<le> time (last (hits (beatmap (forward_music_seek x game offset))))"
  shows "\<exists>game'. forward_music x game offset = Some game'
           \<and> clock game' = clock (forward_music_seek x game offset)
           \<and> game_audio game' = game_audio (forward_music_seek x game offset)
           \<and> state game' = state (forward_music_seek x game offset)
           \<and> mode_calls game' = mode_calls (forward_music_seek x game offset)
           \<and> map time (hits (beatmap game'))
               = map time (hits (beatmap (forward_music_seek x game offset)))
           \<and> hit_cursor (forward_music_seek x game offset) \<le> hit_cursor game'
           \<and> hit_cursor game' < length (hits (beatmap (forward_music_seek x game offset)))
           \<and> now (clock (forward_music_seek x game offset)) + 1
               \<le> time (hits (beatmap game') ! hit_cursor game')
           \<and> (\<forall>k. hit_cursor (forward_music_seek x game offset) \<le> k \<and> k < hit_cursor game'
                 \<longrightarrow> time (hits (beatmap (forward_music_seek x game offset)) ! k)
                       < now (clock (forward_music_seek x game offset)) + 1)"
proof -
  define g where "g = forward_music_seek x game offset"
  from forward_walk_stops [OF c tail, folded g_def]
  obtain hs' c' where w:
    "forward_walk (now (clock g)) (hits (beatmap g)) (hit_cursor g) = Some (hs', c')"
    "hit_cursor g \<le> c'" "c' < length (hits (beatmap g))" "length hs' = length (hits (beatmap g))"
    "now (clock g) + 1 \<le> time (hs' ! c')"
    "\<forall>k. hit_cursor g \<le> k \<and> k < c' \<longrightarrow>
         time (hits (beatmap g) ! k) < now (clock g) + 1
         \<and> hs' ! k = (hits (beatmap g) ! k)\<lparr>hstate := OSHU_SKIPPED_HIT\<rparr>"
    "\<forall>k. k < length (hits (beatmap g)) \<and> \<not> (hit_cursor g \<le> k \<and> k < c')
         \<longrightarrow> hs' ! k = hits (beatmap g) ! k"
    by blast
  have times: "map time hs' = map time (hits (beatmap g))"
    using walked_times [OF w(4) w(6) w(7)] .
  have "forward_music x game offset
          = Some (g\<lparr>beatmap := (beatmap g)\<lparr>hits := hs'\<rparr>, hit_cursor := c'\<rparr>)"
    using c w(1) by (simp add: forward_music_def walk_cursor_def g_def [symmetric] Let_def)
  with w(2,3,5,6) times show ?thesis
    unfolding g_def [symmetric] by simp
qed

lemma rewind_music_seek_fields:
  assumes "\<And>g. hit_cursor (mode_relinquish x g) = hit_cursor g"
    and "\<And>g. map time (hits (beatmap (mode_relinquish x g))) = map time (hits (beatmap g))"
    and "\<And>g. clock (mode_relinquish x g) = clock g"
    and "\<And>g. game_audio (mode_relinquish x g) = game_audio g"
  shows "hit_cursor (rewind_music_seek x game offset) = hit_cursor game"
    and "map time (hits (beatmap (rewind_music_seek x game offset)))
           = map time (hits (beatmap game))"
    and "now (clock (rewind_music_seek x game offset))
           = seek_stream x (current_timestamp (game_audio game) - offset)"
    and "current_timestamp (game_audio (rewind_music_seek x game offset))
           = seek_stream x (current_timestamp (game_audio game) - offset)"
  using assms
  by (simp_all add: rewind_music_seek_def oshu_seek_music_def call_relinquish_def Let_def)

lemma forward_music_seek_fields:
  assumes "\<And>g. hit_cursor (mode_relinquish x g) = hit_cursor g"
    and "\<And>g. map time (hits (beatmap (mode_relinquish x g))) = map time (hits (beatmap g))"
    and "\<And>g. clock (mode_relinquish x g) = clock g"
    and "\<And>g. game_audio (mode_relinquish x g) = game_audio g"
  shows "hit_cursor (forward_music_seek x game offset) = hit_cursor game"
    and "map time (hits (beatmap (forward_music_seek x game offset)))
           = map time (hits (beatmap game))"
    and "now (clock (forward_music_seek x game offset))
           = seek_stream x (current_timestamp (game_audio game) + offset)"
  using assms
  by (simp_all add: forward_music_seek_def oshu_seek_music_def call_relinquish_def
      oshu_play_audio_def Let_def)

lemma last_map_time:
  assumes "map time hs' = map time hs" and "hs \<noteq> []"
  shows "time (last hs') = time (last hs)"
proof -
  from assms have "hs' \<noteq> []" by auto
  with assms(2) have "last (map time hs') = time (last hs')" "last (map time hs) = time (last hs)"
    by (simp_all add: last_map)
  with assms(1) show ?thesis by simp
qed

text \<open>
  C7, amended. Let the list be sorted by time, the offset positive, the seeks exact,
  the sentinels outside the two targets plus one second, and let \<^verbatim>\<open>relinquish\<close> keep
  the cursor, the times, the clock and the audio state. Then rewinding and forwarding
  by the same offset returns with the clock at the starting stream position \<open>ts\<close> and
  the cursor on the first node of the list whose time is at least \<open>ts + 1\<close>. So the
  cursor ends where it started exactly when it started on that node.
\<close>

theorem rewind_then_forward_cursor:
  fixes x :: externals and game :: oshu_game and offset :: real
  defines "ts \<equiv> current_timestamp (game_audio game)"
    and "hs \<equiv> hits (beatmap game)"
  assumes relinquish_cursor: "\<And>g. hit_cursor (mode_relinquish x g) = hit_cursor g"
    and relinquish_times:
      "\<And>g. map time (hits (beatmap (mode_relinquish x g))) = map time (hits (beatmap g))"
    and relinquish_clock: "\<And>g. clock (mode_relinquish x g) = clock g"
    and relinquish_audio: "\<And>g. game_audio (mode_relinquish x g) = game_audio g"
    and seek_back_exact: "seek_stream x (ts - offset) = ts - offset"
    and seek_forth_exact: "seek_stream x ts = ts"
    and offset: "0 < offset"
    and cursor: "hit_cursor game < length hs"
    and sorted: "sorted (map time hs)"
    and head: "time (hs ! 0) \<le> ts - offset + 1"
    and tail: "ts + 1 \<le> time (last hs)"
  shows "\<exists>game'. rewind_then_forward x game offset = Some game'
           \<and> now (clock game') = ts
           \<and> hit_cursor game' < length hs
           \<and> ts + 1 \<le> time (hs ! hit_cursor game')
           \<and> (\<forall>k<hit_cursor game'. time (hs ! k) < ts + 1)
           \<and> (hit_cursor game' = hit_cursor game \<longleftrightarrow>
                ts + 1 \<le> time (hs ! hit_cursor game)
                \<and> (\<forall>k<hit_cursor game. time (hs ! k) < ts + 1))"
proof -
  note relinquish = relinquish_cursor relinquish_times relinquish_clock relinquish_audio
  have nonempty: "hs \<noteq> []"
    using cursor by auto
  define r where "r = rewind_music_seek x game offset"
  have r: "hit_cursor r = hit_cursor game" "map time (hits (beatmap r)) = map time hs"
    "now (clock r) = ts - offset" "current_timestamp (game_audio r) = ts - offset"
    using rewind_music_seek_fields [OF relinquish, of game offset] seek_back_exact
    by (simp_all add: r_def ts_def hs_def)
  from r(2) have r_length: "length (hits (beatmap r)) = length hs"
    by (metis length_map)
  have "hit_cursor r < length (hits (beatmap r))"
    using r(1) r_length cursor by simp
  moreover have "time (hits (beatmap r) ! 0) \<le> now (clock r) + 1"
    using map_time_nth [OF r(2), of 0] nonempty head r(3) by simp
  ultimately obtain g1 where g1: "rewind_music x game offset = Some g1"
    "clock g1 = clock r" "game_audio g1 = game_audio r"
    "map time (hits (beatmap g1)) = map time (hits (beatmap r))"
    "hit_cursor g1 \<le> hit_cursor r"
    "time (hits (beatmap g1) ! hit_cursor g1) \<le> now (clock r) + 1"
    using rewind_music_times [of x game offset] unfolding r_def by blast
  have g1_times: "map time (hits (beatmap g1)) = map time hs"
    using g1(4) r(2) by simp
  have c1: "hit_cursor g1 \<le> hit_cursor game" "hit_cursor g1 < length hs"
    using g1(5) r(1) cursor by simp_all
  have c1_time: "time (hs ! hit_cursor g1) \<le> ts - offset + 1"
    using g1(6) r(3) map_time_nth [OF g1_times c1(2)] by simp
  define f where "f = forward_music_seek x g1 offset"
  have f: "hit_cursor f = hit_cursor g1" "map time (hits (beatmap f)) = map time hs"
    "now (clock f) = ts"
    using forward_music_seek_fields [OF relinquish, of g1 offset] g1(3) r(4) g1_times
      seek_forth_exact
    by (simp_all add: f_def)
  from f(2) have f_length: "length (hits (beatmap f)) = length hs"
    by (metis length_map)
  have "hit_cursor f < length (hits (beatmap f))"
    using f(1) f_length c1(2) by simp
  moreover have "now (clock f) + 1 \<le> time (last (hits (beatmap f)))"
    using last_map_time [OF f(2) nonempty] tail f(3) by simp
  ultimately obtain g2 where g2: "forward_music x g1 offset = Some g2"
    "clock g2 = clock f"
    "map time (hits (beatmap g2)) = map time (hits (beatmap f))"
    "hit_cursor f \<le> hit_cursor g2"
    "hit_cursor g2 < length (hits (beatmap f))"
    "now (clock f) + 1 \<le> time (hits (beatmap g2) ! hit_cursor g2)"
    "\<forall>k. hit_cursor f \<le> k \<and> k < hit_cursor g2
         \<longrightarrow> time (hits (beatmap f) ! k) < now (clock f) + 1"
    using forward_music_times [of x g1 offset] unfolding f_def by blast
  have c2: "hit_cursor g2 < length hs"
    using g2(5) f_length by simp
  have g2_times: "map time (hits (beatmap g2)) = map time hs"
    using g2(3) f(2) by simp
  have c2_time: "ts + 1 \<le> time (hs ! hit_cursor g2)"
    using g2(6) f(3) map_time_nth [OF g2_times c2] by simp
  have before_c2: "time (hs ! k) < ts + 1" if k: "k < hit_cursor g2" for k
  proof (cases "hit_cursor g1 \<le> k")
    case True
    with k g2(7) f(1,3) have "time (hits (beatmap f) ! k) < ts + 1"
      by simp
    moreover from k c2 have "k < length hs" by simp
    ultimately show ?thesis
      using map_time_nth [OF f(2), of k] by simp
  next
    case False
    then have "k < hit_cursor g1" by simp
    with sorted c1(2) have "time (hs ! k) \<le> time (hs ! hit_cursor g1)"
      using sorted_wrt_nth_less [of "(\<le>)" "map time hs" k "hit_cursor g1"] by simp
    with c1_time offset show ?thesis by simp
  qed
  have same: "hit_cursor g2 = hit_cursor game \<longleftrightarrow>
                ts + 1 \<le> time (hs ! hit_cursor game)
                \<and> (\<forall>k<hit_cursor game. time (hs ! k) < ts + 1)"
  proof
    assume "hit_cursor g2 = hit_cursor game"
    with c2_time before_c2 show "ts + 1 \<le> time (hs ! hit_cursor game)
                \<and> (\<forall>k<hit_cursor game. time (hs ! k) < ts + 1)"
      by auto
  next
    assume first: "ts + 1 \<le> time (hs ! hit_cursor game)
                \<and> (\<forall>k<hit_cursor game. time (hs ! k) < ts + 1)"
    show "hit_cursor g2 = hit_cursor game"
    proof (rule ccontr)
      assume "hit_cursor g2 \<noteq> hit_cursor game"
      then consider "hit_cursor g2 < hit_cursor game" | "hit_cursor game < hit_cursor g2"
        by arith
      then show False
      proof cases
        case 1
        with first have "time (hs ! hit_cursor g2) < ts + 1" by blast
        with c2_time show False by simp
      next
        case 2
        then have "time (hs ! hit_cursor game) < ts + 1" by (rule before_c2)
        with first show False by simp
      qed
    qed
  qed
  have "rewind_then_forward x game offset = Some g2"
    using g1(1) g2(1) by (simp add: rewind_then_forward_def)
  moreover have "now (clock g2) = ts"
    using g2(2) f(3) by simp
  ultimately show ?thesis
    using c2 c2_time before_c2 same by blast
qed

text \<open>
  On the timeline in the middle of a game, with the cursor on the object at 8 and the
  song at 5.5, the object at 8 is the first one at least a second ahead, and the
  cursor comes back to it.
\<close>

theorem rewind_then_forward_cursor_witness:
  "hit_cursor (example_game played_timeline 5 5.5) = 5
   \<and> map_option hit_cursor
       (rewind_then_forward example_externals (example_game played_timeline 5 5.5) 2) = Some 5
   \<and> map_option (now \<circ> clock)
       (rewind_then_forward example_externals (example_game played_timeline 5 5.5) 2) = Some 5.5"
proof -
  let ?game = "example_game played_timeline 5 5.5"
  have game: "current_timestamp (game_audio ?game) = 5.5" "hits (beatmap ?game) = played_timeline"
    "hit_cursor ?game = 5"
    by (simp_all add: example_game_def)
  have relinquish: "\<And>g. hit_cursor (mode_relinquish example_externals g) = hit_cursor g"
    "\<And>g. map time (hits (beatmap (mode_relinquish example_externals g)))
            = map time (hits (beatmap g))"
    "\<And>g. clock (mode_relinquish example_externals g) = clock g"
    "\<And>g. game_audio (mode_relinquish example_externals g) = game_audio g"
    by (simp_all add: example_externals_def comp_def if_distrib [of time] cong: if_cong)
  have exact: "seek_stream example_externals (5.5 - 2) = 5.5 - 2"
    "seek_stream example_externals 5.5 = 5.5"
    by (simp_all add: example_externals_def)
  have nodes: "length played_timeline = 7" "sorted (map time played_timeline)"
    "time (played_timeline ! 0) \<le> 5.5 - 2 + 1" "5.5 + 1 \<le> time (last played_timeline)"
    by (simp_all add: played_timeline_def circle_at_def sentinel_at_def)
  have first: "5.5 + 1 \<le> time (played_timeline ! 5)
                \<and> (\<forall>k<5. time (played_timeline ! k) < 5.5 + 1)"
    by (simp add: played_timeline_def circle_at_def sentinel_at_def less_Suc_eq numeral_nat)
  from rewind_then_forward_cursor [of example_externals ?game 2, unfolded game,
      OF relinquish exact] nodes
  obtain game' where game': "rewind_then_forward example_externals ?game 2 = Some game'"
    "now (clock game') = 5.5"
    "hit_cursor game' = 5 \<longleftrightarrow>
       5.5 + 1 \<le> time (played_timeline ! 5) \<and> (\<forall>k<5. time (played_timeline ! k) < 5.5 + 1)"
    by auto
  from game'(3) first have "hit_cursor game' = 5"
    by blast
  with game' game(3) show ?thesis
    by simp
qed

section \<open>Pausing and resuming\<close>

text \<open>What the seeking functions leave alone, and the flags after pausing and resuming.\<close>

lemma walk_cursor_fields:
  assumes "walk_cursor walk game = Some game'"
  shows "state game' = state game" and "mode_calls game' = mode_calls game"
    and "clock game' = clock game" and "game_audio game' = game_audio game"
  using assms by (auto simp: walk_cursor_def split: if_splits option.splits)

lemma rewind_music_calls:
  assumes "rewind_music x game offset = Some game'"
  shows "mode_calls game' = mode_calls game @ [RELINQUISH]"
    and "state game' = state (mode_relinquish x (rewind_music_seek x game offset))
         \<or> state game' = state (rewind_music_seek x game offset)"
  using assms walk_cursor_fields [of "rewind_walk (now (clock (rewind_music_seek x game offset)))"
      "rewind_music_seek x game offset" game']
  by (simp_all add: rewind_music_def rewind_music_seek_def call_relinquish_def
      oshu_seek_music_def Let_def)

lemma forward_music_calls:
  assumes "forward_music x game offset = Some game'"
  shows "mode_calls game' = mode_calls game @ [RELINQUISH]"
  using assms walk_cursor_fields [of "forward_walk (now (clock (forward_music_seek x game offset)))"
      "forward_music_seek x game offset" game']
  by (simp_all add: forward_music_def forward_music_seek_def call_relinquish_def
      oshu_seek_music_def oshu_play_audio_def Let_def)

lemma rewind_music_state:
  assumes "\<And>g. state (mode_relinquish x g) = state g"
    and "rewind_music x game offset = Some game'"
  shows "state game' = state game"
  using assms walk_cursor_fields [of "rewind_walk (now (clock (rewind_music_seek x game offset)))"
      "rewind_music_seek x game offset" game']
  by (simp add: rewind_music_def rewind_music_seek_def call_relinquish_def
      oshu_seek_music_def Let_def)

lemma forward_music_state:
  assumes "\<And>g. state (mode_relinquish x g) = state g"
    and "forward_music x game offset = Some game'"
  shows "state game' = state game"
  using assms walk_cursor_fields [of "forward_walk (now (clock (forward_music_seek x game offset)))"
      "forward_music_seek x game offset" game']
  by (simp add: forward_music_def forward_music_seek_def call_relinquish_def
      oshu_seek_music_def oshu_play_audio_def Let_def)

lemma set_playing_flags:
  "\<not> flag_set (state (set_playing game)) OSHU_PAUSED"
  "flag_set (state (set_playing game)) OSHU_PLAYING"
  by (simp_all add: set_playing_def flag_simps)

lemma unpause_game_flags:
  assumes "unpause_game x game = Some game'"
  shows "\<not> flag_set (state game') OSHU_PAUSED \<and> flag_set (state game') OSHU_PLAYING"
  using assms set_playing_flags
  by (auto simp: unpause_game_def split: if_splits option.splits)

lemma unpause_game_calls:
  assumes "unpause_game x game = Some game'"
  shows "mode_calls game' = mode_calls game \<or> mode_calls game' = mode_calls game @ [RELINQUISH]"
  using assms rewind_music_calls(1) [of x game 1]
  by (auto simp: unpause_game_def set_playing_def oshu_play_audio_def
      split: if_splits option.splits)

lemma pause_game_flags:
  "flag_set (state (pause_game game)) OSHU_PAUSED"
  "\<not> flag_set (state (pause_game game)) OSHU_PLAYING"
  "mode_calls (pause_game game) = mode_calls game"
  by (simp_all add: pause_game_def oshu_pause_audio_def flag_simps)



section \<open>Paused and playing exclude each other\<close>

text \<open>The state flags after one event, after \<^verbatim>\<open>check_end\<close>, and after any one step.\<close>

lemma handle_keydown_state:
  assumes press: "\<And>key g. state (mode_press x key g) = state g"
    and relinquish: "\<And>g. state (mode_relinquish x g) = state g"
    and handled: "handle_keydown x game repeat keysym = Some game'"
  shows "state game' = state game
       \<or> state game' = state game OR OSHU_STOPPING
       \<or> state game' = state (pause_game game)
       \<or> unpause_game x game = Some game'"
proof (cases "repeat \<noteq> 0")
  case True
  with handled show ?thesis
    by (simp add: handle_keydown_def)
next
  case False
  note no_repeat = this
  show ?thesis
  proof (cases "flag_set (state game) (OSHU_AUTOPLAY OR OSHU_PAUSED)")
    case True
    with no_repeat handled show ?thesis
      using rewind_music_state [OF relinquish, of game 10 game']
        forward_music_state [OF relinquish, of game 20 game']
      by (cases "sym keysym") (auto simp: handle_keydown_def)
  next
    case False
    note not_paused = this
    show ?thesis
    proof (cases "user_playing game")
      case True
      with no_repeat not_paused handled show ?thesis
        using rewind_music_state [OF relinquish, of game 10 game']
          forward_music_state [OF relinquish, of game 20 game'] press
        by (cases "sym keysym")
          (auto simp: handle_keydown_def call_press_def Let_def split: if_splits)
    next
      case False
      with no_repeat not_paused handled show ?thesis
        by (cases "sym keysym") (auto simp: handle_keydown_def)
    qed
  qed
qed

lemma handle_event_state:
  assumes press: "\<And>key g. state (mode_press x key g) = state g"
    and release: "\<And>key g. state (mode_release x key g) = state g"
    and relinquish: "\<And>g. state (mode_relinquish x g) = state g"
    and handled: "handle_event x game event = Some game'"
  shows "state game' = state game
       \<or> state game' = state game OR OSHU_STOPPING
       \<or> state game' = state (pause_game game)
       \<or> unpause_game x game = Some game'"
proof (cases event)
  case (SDL_KEYDOWN repeat keysym)
  with handled have "handle_keydown x game repeat keysym = Some game'"
    by (simp add: handle_event_def)
  from handle_keydown_state [OF press relinquish this] show ?thesis .
next
  case (SDL_KEYUP keysym)
  with handled release show ?thesis
    by (auto simp: handle_event_def call_release_def Let_def split: if_splits)
next
  case SDL_MOUSEBUTTONDOWN
  with handled press show ?thesis
    by (auto simp: handle_event_def call_press_def split: if_splits)
next
  case SDL_MOUSEBUTTONUP
  with handled release show ?thesis
    by (auto simp: handle_event_def call_release_def split: if_splits)
next
  case (SDL_WINDOWEVENT window_event)
  with handled show ?thesis
    by (cases window_event) (auto simp: handle_event_def split: if_splits)
next
  case SDL_OTHEREVENT
  with handled show ?thesis
    by (simp add: handle_event_def)
qed

lemma check_end_state:
  assumes "check_end game = Some game'"
  shows "state game' = state game \<or> state game' = OSHU_FINISHED OR OSHU_PLAYING"
  using assms by (auto simp: check_end_def Let_def split: if_splits option.splits)

lemma run_step_exclusive:
  assumes press: "\<And>key g. state (mode_press x key g) = state g"
    and release: "\<And>key g. state (mode_release x key g) = state g"
    and relinquish: "\<And>g. state (mode_relinquish x g) = state g"
    and start: "\<not> (flag_set (state game) OSHU_PAUSED \<and> flag_set (state game) OSHU_PLAYING)"
    and step: "run_step x game step = Some game'"
  shows "\<not> (flag_set (state game') OSHU_PAUSED \<and> flag_set (state game') OSHU_PLAYING)"
proof (cases step)
  case PAUSE_GAME
  with step pause_game_flags(2) [of game] show ?thesis
    by (auto simp: run_step_def)
next
  case UNPAUSE_GAME
  with step unpause_game_flags [of x game game'] show ?thesis
    by (simp add: run_step_def)
next
  case (HANDLE_EVENT event)
  with step have "handle_event x game event = Some game'"
    by (simp add: run_step_def)
  from handle_event_state [OF press release relinquish this]
  show ?thesis
    using start pause_game_flags(2) [of game] unpause_game_flags [of x game game']
    by (auto simp: flag_simps)
next
  case CHECK_END
  with step have "check_end game = Some game'"
    by (simp add: run_step_def)
  from check_end_state [OF this] start show ?thesis
    by (auto simp: flag_simps)
qed

text \<open>
  C9. Let the callbacks of the game mode leave \<^verbatim>\<open>game->state\<close> alone. From a state in
  which \<^verbatim>\<open>OSHU_PAUSED\<close> and \<^verbatim>\<open>OSHU_PLAYING\<close> are not both set, every sequence of
  \<^verbatim>\<open>pause_game\<close>, \<^verbatim>\<open>unpause_game\<close>, \<^verbatim>\<open>handle_event\<close> and \<^verbatim>\<open>check_end\<close> steps that returns
  ends in such a state. Every state on the way is the end of a shorter sequence, so
  the same holds for it.
\<close>

theorem paused_playing_exclusive:
  assumes press: "\<And>key g. state (mode_press x key g) = state g"
    and release: "\<And>key g. state (mode_release x key g) = state g"
    and relinquish: "\<And>g. state (mode_relinquish x g) = state g"
    and start: "\<not> (flag_set (state game) OSHU_PAUSED \<and> flag_set (state game) OSHU_PLAYING)"
    and run: "run_steps x game steps = Some game'"
  shows "\<not> (flag_set (state game') OSHU_PAUSED \<and> flag_set (state game') OSHU_PLAYING)"
  using start run
proof (induction steps arbitrary: game)
  case Nil
  then show ?case by simp
next
  case (Cons step steps)
  from Cons.prems(2) obtain game1 where game1: "run_step x game step = Some game1"
    "run_steps x game1 steps = Some game'"
    by (auto split: option.splits)
  from run_step_exclusive [OF press release relinquish Cons.prems(1) game1(1)]
  have "\<not> (flag_set (state game1) OSHU_PAUSED \<and> flag_set (state game1) OSHU_PLAYING)" .
  from Cons.IH [OF this game1(2)] show ?case .
qed

text \<open>
  Pausing the example game, pressing escape and checking for the end leaves it
  playing and not paused; after the pause alone the two flags are not both set.
\<close>

theorem paused_playing_exclusive_witness:
  "map_option (\<lambda>game. flag_set (state game) OSHU_PAUSED)
     (run_steps example_externals (example_game played_timeline 5 5.5)
        [PAUSE_GAME,
         HANDLE_EVENT (SDL_KEYDOWN 0 \<lparr>scancode = SDL_SCANCODE_OTHER, sym = SDLK_ESCAPE\<rparr>),
         CHECK_END]) = Some False
   \<and> map_option (\<lambda>game. flag_set (state game) OSHU_PLAYING)
     (run_steps example_externals (example_game played_timeline 5 5.5)
        [PAUSE_GAME,
         HANDLE_EVENT (SDL_KEYDOWN 0 \<lparr>scancode = SDL_SCANCODE_OTHER, sym = SDLK_ESCAPE\<rparr>),
         CHECK_END]) = Some True
   \<and> map_option (\<lambda>game. flag_set (state game) OSHU_PAUSED \<and> flag_set (state game) OSHU_PLAYING)
     (run_steps example_externals (example_game played_timeline 5 5.5) [PAUSE_GAME]) = Some False"
proof -
  let ?game = "example_game played_timeline 5 5.5"
  let ?steps = "[PAUSE_GAME,
         HANDLE_EVENT (SDL_KEYDOWN 0 \<lparr>scancode = SDL_SCANCODE_OTHER, sym = SDLK_ESCAPE\<rparr>),
         CHECK_END]"
  have callbacks: "\<And>key g. state (mode_press example_externals key g) = state g"
    "\<And>key g. state (mode_release example_externals key g) = state g"
    "\<And>g. state (mode_relinquish example_externals g) = state g"
    by (simp_all add: example_externals_def)
  have start: "\<not> (flag_set (state ?game) OSHU_PAUSED \<and> flag_set (state ?game) OSHU_PLAYING)"
    by (simp add: example_game_def flag_simps)
  have playing: "map_option (\<lambda>game. flag_set (state game) OSHU_PLAYING)
     (run_steps example_externals ?game ?steps) = Some True"
    by (simp add: run_step_def handle_event_def handle_keydown_def pause_game_def
        unpause_game_def check_end_def set_playing_def oshu_pause_audio_def user_playing_def
        seek_simps example_simps flag_simps)
  then obtain game' where game': "run_steps example_externals ?game ?steps = Some game'"
    by auto
  have paused: "run_steps example_externals ?game [PAUSE_GAME] = Some (pause_game ?game)"
    by (simp add: run_step_def)
  from paused_playing_exclusive [OF callbacks start game'] playing game'
  have "\<not> flag_set (state game') OSHU_PAUSED"
    by simp
  moreover from paused_playing_exclusive [OF callbacks start paused]
  have "\<not> (flag_set (state (pause_game ?game)) OSHU_PAUSED
          \<and> flag_set (state (pause_game ?game)) OSHU_PLAYING)" .
  ultimately show ?thesis
    using playing game' paused by simp
qed

section \<open>What reaches the game mode\<close>

text \<open>
  C8, as stated, fails for the key code q. While the user plays, \<^verbatim>\<open>handle_event\<close>
  compares the key code with escape, page-up and page-down only, and passes every
  other key to \<^verbatim>\<open>translate_key\<close>, which reads the scancode. On a keyboard layout that
  puts q where a QWERTY keyboard has A, the key is pressed on the game mode.
\<close>

theorem handle_event_q_counterexample:
  "sym \<lparr>scancode = SDL_SCANCODE_A, sym = SDLK_q\<rparr> = SDLK_q
   \<and> map_option mode_calls
       (handle_event example_externals (example_game played_timeline 5 5.5)
          (SDL_KEYDOWN 0 \<lparr>scancode = SDL_SCANCODE_A, sym = SDLK_q\<rparr>))
     = Some [PRESS OSHU_LEFT_PINKY]"
  by (simp add: handle_event_def handle_keydown_def user_playing_def translate_key_def
      call_press_def example_simps flag_simps)

text \<open>The calls one event makes.\<close>

lemma handle_keydown_calls:
  assumes "handle_keydown x game repeat keysym = Some game'"
  shows "mode_calls game' = mode_calls game
       \<or> mode_calls game' = mode_calls game @ [RELINQUISH]
       \<or> (mode_calls game' = mode_calls game @ [PRESS (translate_key keysym)]
           \<and> repeat = 0 \<and> \<not> flag_set (state game) (OSHU_AUTOPLAY OR OSHU_PAUSED)
           \<and> user_playing game
           \<and> sym keysym \<noteq> SDLK_ESCAPE \<and> sym keysym \<noteq> SDLK_PAGEUP
           \<and> sym keysym \<noteq> SDLK_PAGEDOWN
           \<and> translate_key keysym \<noteq> OSHU_UNKNOWN_KEY)"
proof (cases "repeat \<noteq> 0")
  case True
  with assms show ?thesis
    by (simp add: handle_keydown_def)
next
  case False
  note no_repeat = this
  show ?thesis
  proof (cases "flag_set (state game) (OSHU_AUTOPLAY OR OSHU_PAUSED)")
    case True
    with no_repeat assms show ?thesis
      using rewind_music_calls(1) [of x game 10 game'] forward_music_calls [of x game 20 game']
        unpause_game_calls [of x game game']
      by (cases "sym keysym") (auto simp: handle_keydown_def)
  next
    case False
    note not_paused = this
    show ?thesis
    proof (cases "user_playing game")
      case True
      with no_repeat not_paused assms show ?thesis
        using rewind_music_calls(1) [of x game 10 game'] forward_music_calls [of x game 20 game']
          pause_game_flags(3) [of game]
        by (cases "sym keysym")
          (auto simp: handle_keydown_def call_press_def Let_def split: if_splits)
    next
      case False
      with no_repeat not_paused assms show ?thesis
        by (cases "sym keysym") (auto simp: handle_keydown_def)
    qed
  qed
qed

lemma handle_event_calls:
  assumes "handle_event x game event = Some game'"
  shows "mode_calls game' = mode_calls game
       \<or> mode_calls game' = mode_calls game @ [RELINQUISH]
       \<or> (\<exists>keysym. event = SDL_KEYDOWN 0 keysym
             \<and> mode_calls game' = mode_calls game @ [PRESS (translate_key keysym)]
             \<and> \<not> flag_set (state game) (OSHU_AUTOPLAY OR OSHU_PAUSED)
             \<and> user_playing game
             \<and> sym keysym \<noteq> SDLK_ESCAPE \<and> sym keysym \<noteq> SDLK_PAGEUP
             \<and> sym keysym \<noteq> SDLK_PAGEDOWN
             \<and> translate_key keysym \<noteq> OSHU_UNKNOWN_KEY)
       \<or> (\<exists>keysym. event = SDL_KEYUP keysym
             \<and> mode_calls game' = mode_calls game @ [RELEASE (translate_key keysym)]
             \<and> user_playing game
             \<and> translate_key keysym \<noteq> OSHU_UNKNOWN_KEY)
       \<or> (event = SDL_MOUSEBUTTONDOWN
             \<and> mode_calls game' = mode_calls game @ [PRESS OSHU_LEFT_BUTTON]
             \<and> user_playing game)
       \<or> (event = SDL_MOUSEBUTTONUP
             \<and> mode_calls game' = mode_calls game @ [RELEASE OSHU_LEFT_BUTTON]
             \<and> user_playing game)"
proof (cases event)
  case (SDL_KEYDOWN repeat keysym)
  with assms have "handle_keydown x game repeat keysym = Some game'"
    by (simp add: handle_event_def)
  from handle_keydown_calls [OF this] SDL_KEYDOWN show ?thesis
    by auto
next
  case (SDL_KEYUP keysym)
  with assms show ?thesis
    by (auto simp: handle_event_def call_release_def Let_def split: if_splits)
next
  case SDL_MOUSEBUTTONDOWN
  with assms show ?thesis
    by (auto simp: handle_event_def call_press_def split: if_splits)
next
  case SDL_MOUSEBUTTONUP
  with assms show ?thesis
    by (auto simp: handle_event_def call_release_def split: if_splits)
next
  case (SDL_WINDOWEVENT window_event)
  with assms pause_game_flags(3) [of game] show ?thesis
    by (cases window_event) (auto simp: handle_event_def split: if_splits)
next
  case SDL_OTHEREVENT
  with assms show ?thesis
    by (simp add: handle_event_def)
qed

lemma handle_event_None:
  assumes "handle_event x game event = None"
  shows "(\<exists>repeat keysym. event = SDL_KEYDOWN repeat keysym
            \<and> (sym keysym = SDLK_ESCAPE \<or> sym keysym = SDLK_PAGEUP \<or> sym keysym = SDLK_PAGEDOWN))
       \<or> (\<exists>window_event. event = SDL_WINDOWEVENT window_event)"
proof (cases event)
  case (SDL_KEYDOWN repeat keysym)
  with assms show ?thesis
    by (cases "sym keysym") (auto simp: handle_event_def handle_keydown_def Let_def split: if_splits)
qed (use assms in \<open>auto simp: handle_event_def Let_def split: if_splits\<close>)

text \<open>
  C8, amended. Let \<^verbatim>\<open>handle_event\<close> return, and let \<open>calls\<close> be the calls it made to the
  game mode. A press or a release is among them only if \<^verbatim>\<open>OSHU_USERPLAY\<close> and
  \<^verbatim>\<open>OSHU_PLAYING\<close> are both set, so, the flags being exclusive, only if neither
  \<^verbatim>\<open>OSHU_AUTOPLAY\<close> nor \<^verbatim>\<open>OSHU_PAUSED\<close> is; and never with \<^verbatim>\<open>OSHU_UNKNOWN_KEY\<close>. A
  key-down event makes neither call when its repeat flag is set, when \<^verbatim>\<open>OSHU_AUTOPLAY\<close>
  or \<^verbatim>\<open>OSHU_PAUSED\<close> is set, when its key code is escape, page-up or page-down, or when
  its scancode translates to \<^verbatim>\<open>OSHU_UNKNOWN_KEY\<close>; a key-up event makes neither call
  when its scancode translates to \<^verbatim>\<open>OSHU_UNKNOWN_KEY\<close>. A press comes from a key-down
  event that is not a repeat or from a mouse button going down, a release from a
  key-up event or a mouse button going up.
\<close>

theorem handle_event_press_release:
  assumes "handle_event x game event = Some game'"
  shows "\<exists>calls. mode_calls game' = mode_calls game @ calls
     \<and> (\<forall>key. PRESS key \<in> set calls \<or> RELEASE key \<in> set calls \<longrightarrow>
           flag_set (state game) OSHU_USERPLAY \<and> flag_set (state game) OSHU_PLAYING
           \<and> key \<noteq> OSHU_UNKNOWN_KEY
           \<and> (\<not> (flag_set (state game) OSHU_USERPLAY \<and> flag_set (state game) OSHU_AUTOPLAY)
                \<and> \<not> (flag_set (state game) OSHU_PLAYING \<and> flag_set (state game) OSHU_PAUSED)
              \<longrightarrow> \<not> flag_set (state game) OSHU_AUTOPLAY
                  \<and> \<not> flag_set (state game) OSHU_PAUSED))
     \<and> (\<forall>repeat keysym.
           event = SDL_KEYDOWN repeat keysym
           \<and> (repeat \<noteq> 0
               \<or> flag_set (state game) OSHU_AUTOPLAY \<or> flag_set (state game) OSHU_PAUSED
               \<or> sym keysym = SDLK_ESCAPE \<or> sym keysym = SDLK_PAGEUP
               \<or> sym keysym = SDLK_PAGEDOWN
               \<or> translate_key keysym = OSHU_UNKNOWN_KEY)
           \<longrightarrow> (\<forall>key. PRESS key \<notin> set calls \<and> RELEASE key \<notin> set calls))
     \<and> (\<forall>keysym.
           event = SDL_KEYUP keysym \<and> translate_key keysym = OSHU_UNKNOWN_KEY
           \<longrightarrow> (\<forall>key. PRESS key \<notin> set calls \<and> RELEASE key \<notin> set calls))
     \<and> (\<forall>key. PRESS key \<in> set calls \<longrightarrow>
           (\<exists>keysym. event = SDL_KEYDOWN 0 keysym \<and> key = translate_key keysym)
           \<or> (event = SDL_MOUSEBUTTONDOWN \<and> key = OSHU_LEFT_BUTTON))
     \<and> (\<forall>key. RELEASE key \<in> set calls \<longrightarrow>
           (\<exists>keysym. event = SDL_KEYUP keysym \<and> key = translate_key keysym)
           \<or> (event = SDL_MOUSEBUTTONUP \<and> key = OSHU_LEFT_BUTTON))"
proof -
  define calls where "calls = drop (length (mode_calls game)) (mode_calls game')"
  from handle_event_calls [OF assms]
  consider (none) "calls = []" "mode_calls game' = mode_calls game @ calls"
    | (relinquish) "calls = [RELINQUISH]" "mode_calls game' = mode_calls game @ calls"
    | (keydown) keysym where "calls = [PRESS (translate_key keysym)]"
        "mode_calls game' = mode_calls game @ calls" "event = SDL_KEYDOWN 0 keysym"
        "\<not> flag_set (state game) (OSHU_AUTOPLAY OR OSHU_PAUSED)" "user_playing game"
        "sym keysym \<noteq> SDLK_ESCAPE" "sym keysym \<noteq> SDLK_PAGEUP" "sym keysym \<noteq> SDLK_PAGEDOWN"
        "translate_key keysym \<noteq> OSHU_UNKNOWN_KEY"
    | (keyup) keysym where "calls = [RELEASE (translate_key keysym)]"
        "mode_calls game' = mode_calls game @ calls" "event = SDL_KEYUP keysym"
        "user_playing game" "translate_key keysym \<noteq> OSHU_UNKNOWN_KEY"
    | (mousedown) "calls = [PRESS OSHU_LEFT_BUTTON]"
        "mode_calls game' = mode_calls game @ calls" "event = SDL_MOUSEBUTTONDOWN"
        "user_playing game"
    | (mouseup) "calls = [RELEASE OSHU_LEFT_BUTTON]"
        "mode_calls game' = mode_calls game @ calls" "event = SDL_MOUSEBUTTONUP"
        "user_playing game"
    unfolding calls_def by auto
  then show ?thesis
  proof cases
    case none
    then show ?thesis by (intro exI [of _ calls]) simp
  next
    case relinquish
    then show ?thesis by (intro exI [of _ calls]) simp
  next
    case keydown
    then show ?thesis
      by (intro exI [of _ calls]) (auto simp: user_playing_def flag_set_OR)
  next
    case keyup
    then show ?thesis
      by (intro exI [of _ calls]) (auto simp: user_playing_def)
  next
    case mousedown
    then show ?thesis
      by (intro exI [of _ calls]) (auto simp: user_playing_def)
  next
    case mouseup
    then show ?thesis
      by (intro exI [of _ calls]) (auto simp: user_playing_def)
  qed
qed

text \<open>
  The key Z reaches the game mode while the user plays, and does not while the game
  is paused.
\<close>

theorem handle_event_press_release_witness:
  "map_option mode_calls
     (handle_event example_externals (example_game played_timeline 5 5.5)
        (SDL_KEYDOWN 0 \<lparr>scancode = SDL_SCANCODE_Z, sym = SDLK_OTHER\<rparr>))
     = Some [PRESS OSHU_LEFT_MIDDLE]
   \<and> flag_set (state (example_game played_timeline 5 5.5)) OSHU_USERPLAY
   \<and> flag_set (state (example_game played_timeline 5 5.5)) OSHU_PLAYING
   \<and> map_option (\<lambda>game. PRESS OSHU_LEFT_MIDDLE \<in> set (mode_calls game))
     (handle_event example_externals
        ((example_game played_timeline 5 5.5)\<lparr>state := OSHU_USERPLAY OR OSHU_PAUSED\<rparr>)
        (SDL_KEYDOWN 0 \<lparr>scancode = SDL_SCANCODE_Z, sym = SDLK_OTHER\<rparr>))
     = Some False"
proof -
  let ?game = "example_game played_timeline 5 5.5"
  let ?paused = "?game\<lparr>state := OSHU_USERPLAY OR OSHU_PAUSED\<rparr>"
  let ?event = "SDL_KEYDOWN 0 \<lparr>scancode = SDL_SCANCODE_Z, sym = SDLK_OTHER\<rparr>"
  have pressed: "map_option mode_calls (handle_event example_externals ?game ?event)
                   = Some [PRESS OSHU_LEFT_MIDDLE]"
    by (simp add: handle_event_def handle_keydown_def user_playing_def translate_key_def
        call_press_def example_simps flag_simps)
  then obtain game' where game': "handle_event example_externals ?game ?event = Some game'"
    "mode_calls game' = [PRESS OSHU_LEFT_MIDDLE]"
    by auto
  have "mode_calls ?game = []"
    by (simp add: example_game_def)
  with handle_event_press_release [OF game'(1)] game'(2)
  have flags: "flag_set (state ?game) OSHU_USERPLAY \<and> flag_set (state ?game) OSHU_PLAYING"
    by auto
  have "handle_event example_externals ?paused ?event = Some ?paused"
    by (simp add: handle_event_def handle_keydown_def example_simps flag_simps)
  moreover have "flag_set (state ?paused) OSHU_PAUSED" "mode_calls ?paused = []"
    by (simp_all add: example_game_def flag_simps)
  ultimately have "PRESS OSHU_LEFT_MIDDLE \<notin> set (mode_calls ?paused)"
    using handle_event_press_release [of example_externals ?paused ?event ?paused]
    by auto
  with \<open>handle_event example_externals ?paused ?event = Some ?paused\<close> pressed flags
  show ?thesis
    by simp
qed

end
